theory Spec2Isabelle
  imports Main "HOL-Library.Word"
begin

section \<open>Strings of the source language\<close>

text \<open>
  A string of the source is a sequence of 16-bit code units; \<open>length\<close> counts code
  units, as \<open>text.length\<close> does. Messages, provider names and file names, which the
  claims never look into, are kept as \<open>string\<close>.
\<close>

type_synonym codeUnit = "16 word"
type_synonym jsString = "codeUnit list"

definition utf16 :: "string \<Rightarrow> jsString" where
  "utf16 s = map (\<lambda>c. of_nat (of_char c)) s"

text \<open>
  The code units that \<open>\s\<close> in a regular expression matches and that
  \<open>String.prototype.trim\<close> strips (white space and line terminators).
\<close>

definition isWhiteSpace :: "codeUnit \<Rightarrow> bool" where
  "isWhiteSpace c \<longleftrightarrow>
     c \<in> set [0x09, 0x0A, 0x0B, 0x0C, 0x0D, 0x20, 0xA0, 0x1680,
                0x2000, 0x2001, 0x2002, 0x2003, 0x2004, 0x2005, 0x2006, 0x2007,
                0x2008, 0x2009, 0x200A, 0x2028, 0x2029, 0x202F, 0x205F, 0x3000, 0xFEFF]"

text \<open>The class \<open>[.?!]\<close>.\<close>

definition isSentenceEnd :: "codeUnit \<Rightarrow> bool" where
  "isSentenceEnd c \<longleftrightarrow> c \<in> set [0x2E, 0x3F, 0x21]"

text \<open>The class \<open>[\n\r]\<close>.\<close>

definition isLineBreak :: "codeUnit \<Rightarrow> bool" where
  "isLineBreak c \<longleftrightarrow> c \<in> set [0x0A, 0x0D]"

definition space :: codeUnit where
  "space = 0x20"

text \<open>
  \<open>s.substring(a, b)\<close>: the arguments are swapped when \<open>a > b\<close> and clamped to the
  length (\<open>take\<close> and \<open>drop\<close> clamp by themselves). \<open>s.substring(a)\<close> runs to the end.
\<close>

definition substring :: "jsString \<Rightarrow> nat \<Rightarrow> nat \<Rightarrow> jsString" where
  "substring s a b = take (max a b - min a b) (drop (min a b) s)"

definition substringFrom :: "jsString \<Rightarrow> nat \<Rightarrow> jsString" where
  "substringFrom s a = drop a s"

definition trim :: "jsString \<Rightarrow> jsString" where
  "trim s = rev (dropWhile isWhiteSpace (rev (dropWhile isWhiteSpace s)))"

text \<open>
  \<open>s.lastIndexOf(c, fromIndex)\<close>: the greatest index \<open>k \<le> fromIndex\<close> inside the
  string with \<open>s[k] = c\<close>, or \<open>-1\<close>.
\<close>

fun lastIndexOf :: "jsString \<Rightarrow> codeUnit \<Rightarrow> nat \<Rightarrow> int" where
  "lastIndexOf s c 0 = (if 0 < length s \<and> s ! 0 = c then 0 else - 1)"
| "lastIndexOf s c (Suc k) =
     (if Suc k < length s \<and> s ! Suc k = c then int (Suc k) else lastIndexOf s c k)"

section \<open>The regular expression \<open>/[.?!]\s+|[\n\r]+/g\<close>\<close>

text \<open>
  \<open>matchHere s\<close> is the length of the match of \<open>[.?!]\s+|[\n\r]+\<close> anchored at the
  head of \<open>s\<close>: the first alternative is tried first, and both \<open>+\<close> are greedy.
\<close>

fun matchHere :: "jsString \<Rightarrow> nat option" where
  "matchHere [] = None"
| "matchHere (c # cs) =
     (if isSentenceEnd c \<and> 0 < length (takeWhile isWhiteSpace cs)
      then Some (1 + length (takeWhile isWhiteSpace cs))
      else if isLineBreak c then Some (length (takeWhile isLineBreak (c # cs)))
      else None)"

text \<open>
  The loop \<open>while ((match = re.exec(s)) !== null)\<close> with the global flag: the pairs
  (\<open>match.index\<close>, \<open>match[0].length\<close>) of the successive matches, left to right.
  \<open>execAll s i\<close> scans the suffix \<open>s\<close> that starts at index \<open>i\<close>; after a match
  of length \<open>l \<ge> 1\<close> the scan resumes at \<open>lastIndex = i + l\<close>.
\<close>

fun execAll :: "jsString \<Rightarrow> nat \<Rightarrow> (nat \<times> nat) list" where
  "execAll [] i = []"
| "execAll (c # cs) i =
     (case matchHere (c # cs) of
        Some l \<Rightarrow> (i, l) # execAll (drop (l - 1) cs) (i + l)
      | None \<Rightarrow> execAll cs (i + 1))"

section \<open>The chunker (\<open>chunkText\<close> of \<open>page.tsx\<close>)\<close>

record TextChunk =
  index :: nat
  chunk_text :: jsString
  startChar :: nat
  endChar :: nat

text \<open>
  Lines 179 to 198: the split position chosen for the window that starts at
  \<open>currentPosition\<close>, when \<open>chunkEnd = currentPosition + maxLength\<close> is inside the text.
\<close>

definition lastMatchPosition :: "jsString \<Rightarrow> nat \<Rightarrow> nat \<Rightarrow> int" where
  "lastMatchPosition text currentPosition chunkEnd =
     foldl (\<lambda>_ m. int currentPosition + int (fst m) + int (snd m)) (- 1)
       (execAll (substring text currentPosition chunkEnd) 0)"

definition splitPosition :: "jsString \<Rightarrow> nat \<Rightarrow> nat \<Rightarrow> nat" where
  "splitPosition text maxLength currentPosition =
     (let chunkEnd = currentPosition + maxLength;
          lastMatch = lastMatchPosition text currentPosition chunkEnd
      in if lastMatch > int currentPosition \<and> lastMatch \<le> int chunkEnd then nat lastMatch
         else let spacePosition = lastIndexOf text space chunkEnd
              in if spacePosition > int currentPosition then nat (spacePosition + 1)
                 else chunkEnd)"

text \<open>
  The \<open>while\<close> loop of lines 167 to 211. For \<open>maxLength = 0\<close> the source loop does not
  advance, so the loop is a partial function: \<open>None\<close> is "does not return".
\<close>

partial_function (option) chunkLoop ::
  "jsString \<Rightarrow> nat \<Rightarrow> nat \<Rightarrow> nat \<Rightarrow> TextChunk list \<Rightarrow> TextChunk list option" where
  "chunkLoop text maxLength currentPosition chunkIndex chunks =
     (if currentPosition < length text then
        (if currentPosition + maxLength \<ge> length text then
           Some (chunks @ [\<lparr>index = chunkIndex,
                            chunk_text = substringFrom text currentPosition,
                            startChar = currentPosition,
                            endChar = length text\<rparr>])
         else
           (let split = splitPosition text maxLength currentPosition;
                chunkText = trim (substring text currentPosition split)
            in if length chunkText > 0 then
                 chunkLoop text maxLength split (chunkIndex + 1)
                   (chunks @ [\<lparr>index = chunkIndex, chunk_text = chunkText,
                                startChar = currentPosition, endChar = split\<rparr>])
               else chunkLoop text maxLength split chunkIndex chunks))
      else Some chunks)"

declare chunkLoop.simps [code]

definition chunkText :: "jsString \<Rightarrow> nat \<Rightarrow> TextChunk list option" where
  "chunkText text maxLength =
     (if text = [] \<or> length text \<le> maxLength then
        Some [\<lparr>index = 0, chunk_text = text, startChar = 0, endChar = length text\<rparr>]
      else chunkLoop text maxLength 0 0 [])"

text \<open>
  Putting the white space back: \<open>weave [g0, ..., gn] [t0, ..., t(n-1)]\<close> is
  \<open>g0 t0 g1 t1 ... t(n-1) gn\<close>, the texts in order with a gap before, between and
  after them.
\<close>

fun weave :: "jsString list \<Rightarrow> jsString list \<Rightarrow> jsString" where
  "weave (g # gs) (t # ts) = g @ t @ weave gs ts"
| "weave gs [] = concat gs"
| "weave [] ts = concat ts"

section \<open>Values shared by the page and the route\<close>

text \<open>
  An optional string field of a JSON body or of a component state. \<open>truthy\<close> is the
  test \<open>if (v)\<close>: the field is present and not the empty string; \<open>orElse v d\<close> is
  \<open>v || d\<close>.
\<close>

definition truthy :: "string option \<Rightarrow> bool" where
  "truthy v = (case v of Some (c # cs) \<Rightarrow> True | _ \<Rightarrow> False)"

definition orElse :: "string option \<Rightarrow> string \<Rightarrow> string" where
  "orElse v d = (case v of Some (c # cs) \<Rightarrow> c # cs | _ \<Rightarrow> d)"

text \<open>The decimal digits of a number, as a template literal prints it.\<close>

fun showNat :: "nat \<Rightarrow> string" where
  "showNat n =
     (if n < 10 then [char_of (48 + n)]
      else showNat (n div 10) @ [char_of (48 + n mod 10)])"

section \<open>The batch route (\<open>POST\<close> of \<open>generate-audio-batch/route.ts\<close>)\<close>

text \<open>
  The route reads its body with \<open>request.json()\<close> and checks only that \<open>chunks\<close> is a
  non-empty array: an element of the array is any JSON value. In \<open>JObj\<close> the list holds
  the properties of the parsed object, one entry per key.
\<close>

datatype json =
    JNull | JBool bool | JNum int | JStr jsString | JArr "json list"
  | JObj "(string \<times> json) list"

text \<open>
  \<open>v.index\<close> and \<open>v.text\<close> for a value \<open>v\<close> that is not \<open>null\<close>: the property of an
  object, \<open>None\<close> (\<open>undefined\<close>) when the object has no such key and on a boolean, a
  number, a string or an array, which have neither property. On \<open>null\<close> the access throws;
  the callers below treat \<open>JNull\<close> before they read a property.
\<close>

fun getProp :: "json \<Rightarrow> string \<Rightarrow> json option" where
  "getProp (JObj kvs) k = map_of kvs k"
| "getProp _ k = None"

text \<open>
  The request body. \<open>b_chunks = None\<close> is a body whose \<open>chunks\<close> is missing or not an
  array.
\<close>

record BatchRequestBody =
  b_chunks :: "json list option"
  b_provider :: "string option"
  b_voice :: "string option"
  b_model :: "string option"
  b_elevenLabsVoiceId :: "string option"
  b_userId :: "string option"

text \<open>A result; \<open>r_chunkIndex\<close> is \<open>chunk.index\<close> as it was read, \<open>None\<close> for \<open>undefined\<close>.\<close>

record ChunkResult =
  r_chunkIndex :: "json option"
  r_success :: bool
  r_audioUrl :: "string option"
  r_duration :: "nat option"
  r_filename :: "string option"
  r_error :: "string option"

record ChunkError =
  e_chunkIndex :: "json option"
  e_error :: string

record BatchResponseBody =
  resp_success :: bool
  resp_totalChunks :: nat
  resp_successfulChunks :: nat
  resp_failedChunks :: nat
  resp_results :: "ChunkResult list"
  resp_errors :: "ChunkError list option"

text \<open>A response of the route: \<open>{error}\<close> with a status, or the batch body (status 200).\<close>

datatype HttpResponse = JsonError nat string | JsonBatch BatchResponseBody

text \<open>
  The body the route sends to the single-chunk endpoint, and what comes back. The
  endpoint and the provider behind it are outside the model: \<open>gen\<close> is any function from
  the request to one of
  \<^item> \<open>GenOk\<close>: a response with \<open>ok\<close>, carrying \<open>audioUrl\<close>, \<open>duration\<close>, \<open>filename\<close>;
  \<^item> \<open>GenNotOk body status statusText\<close>: a response without \<open>ok\<close>; \<open>body\<close> is \<open>None\<close>
    when its JSON cannot be read, else the \<open>error\<close> field of the JSON;
  \<^item> \<open>GenThrows msg\<close>: an \<open>Error\<close> thrown inside the \<open>try\<close> (the fetch rejects, the
    JSON of a good response cannot be read);
  \<^item> \<open>GenThrowsNullish\<close>: a thrown \<open>null\<close> or \<open>undefined\<close>, on which the \<open>catch\<close> block's
    \<open>error.message\<close> throws in turn, so that the chunk's promise is rejected.
\<close>

record SingleRequest =
  s_text :: "json option"
  s_provider :: "string option"
  s_chunkIndex :: "json option"
  s_userId :: "string option"
  s_voice :: "string option"
  s_model :: "string option"
  s_elevenLabsVoiceId :: "string option"

datatype GenResponse =
    GenOk "string option" "nat option" "string option"
  | GenNotOk "string option option" nat string
  | GenThrows string
  | GenThrowsNullish

datatype Settled = Fulfilled ChunkResult | Rejected "string option"

definition singleRequest :: "BatchRequestBody \<Rightarrow> json \<Rightarrow> SingleRequest" where
  "singleRequest body chunk =
     \<lparr>s_text = getProp chunk ''text'', s_provider = b_provider body,
      s_chunkIndex = getProp chunk ''index'',
      s_userId = Some (case b_userId body of None \<Rightarrow> ''unknown_user'' | Some u \<Rightarrow> u),
      s_voice = (if b_provider body = Some ''minimax'' then b_voice body else None),
      s_model = (if b_provider body = Some ''minimax'' then b_model body else None),
      s_elevenLabsVoiceId =
        (if b_provider body = Some ''elevenlabs'' then b_elevenLabsVoiceId body else None)\<rparr>"

text \<open>The object returned by the \<open>catch\<close> block of lines 122 to 129, for a chunk that is not \<open>null\<close>.\<close>

definition failedResult :: "json \<Rightarrow> string \<Rightarrow> ChunkResult" where
  "failedResult chunk msg =
     \<lparr>r_chunkIndex = getProp chunk ''index'', r_success = False, r_audioUrl = None,
      r_duration = None, r_filename = None, r_error = Some msg\<rparr>"

text \<open>
  \<open>textReadable chunk\<close>: \<open>chunk.text.length\<close> of line 78 does not throw, that is,
  \<open>chunk.text\<close> is neither \<open>undefined\<close> nor \<open>null\<close>.
\<close>

definition textReadable :: "json \<Rightarrow> bool" where
  "textReadable chunk = (case getProp chunk ''text'' of None \<Rightarrow> False | Some JNull \<Rightarrow> False | Some t \<Rightarrow> True)"

text \<open>
  Lines 76 to 130: the promise of one chunk. For the element \<open>null\<close> line 78 throws and
  the \<open>catch\<close> block throws again on \<open>chunk.index\<close>, so the promise is rejected; for any
  other element whose \<open>text\<close> cannot be read the \<open>catch\<close> block returns a failed result.
\<close>

definition generateChunk ::
  "(SingleRequest \<Rightarrow> GenResponse) \<Rightarrow> BatchRequestBody \<Rightarrow> json \<Rightarrow> Settled" where
  "generateChunk gen body chunk =
     (if chunk = JNull then Rejected (Some ''Cannot read properties of null (reading 'index')'')
      else if \<not> textReadable chunk
        then Fulfilled (failedResult chunk
               (if getProp chunk ''text'' = None
                then ''Cannot read properties of undefined (reading 'length')''
                else ''Cannot read properties of null (reading 'length')''))
      else
        (case gen (singleRequest body chunk) of
           GenOk url dur name \<Rightarrow>
             Fulfilled \<lparr>r_chunkIndex = getProp chunk ''index'', r_success = True, r_audioUrl = url,
                        r_duration = dur, r_filename = name, r_error = None\<rparr>
         | GenNotOk errorData status statusText \<Rightarrow>
             Fulfilled (failedResult chunk (orElse
                          (case errorData of None \<Rightarrow> Some ''Unknown error'' | Some e \<Rightarrow> e)
                          (''Generation failed: '' @ showNat status @ '' '' @ statusText)))
         | GenThrows msg \<Rightarrow> Fulfilled (failedResult chunk msg)
         | GenThrowsNullish \<Rightarrow>
             Rejected (Some ''Cannot read properties of undefined (reading 'message')'')))"

text \<open>
  Lines 136 to 159: one settled promise folded into \<open>batchResults\<close> and \<open>errors\<close>. In
  the branch of a rejected promise \<open>chunk.index\<close> throws when the element is \<open>null\<close>:
  \<open>Inl\<close> is the message of that error, which leaves \<open>forEach\<close>.
\<close>

definition collect ::
  "ChunkResult list \<times> ChunkError list \<Rightarrow> json \<times> Settled
     \<Rightarrow> string + ChunkResult list \<times> ChunkError list" where
  "collect acc cr =
     (case snd cr of
        Fulfilled v \<Rightarrow>
          Inr (fst acc @ [v],
               if \<not> r_success v
               then snd acc @ [\<lparr>e_chunkIndex = r_chunkIndex v,
                                 e_error = orElse (r_error v) ''Unknown error''\<rparr>]
               else snd acc)
      | Rejected reason \<Rightarrow>
          if fst cr = JNull then Inl ''Cannot read properties of null (reading 'index')''
          else Inr (fst acc @ [failedResult (fst cr) (orElse reason ''Unknown error'')],
                    snd acc @ [\<lparr>e_chunkIndex = getProp (fst cr) ''index'',
                                 e_error = orElse reason ''Unknown error''\<rparr>]))"

fun collectAll ::
  "ChunkResult list \<times> ChunkError list \<Rightarrow> (json \<times> Settled) list
     \<Rightarrow> string + ChunkResult list \<times> ChunkError list" where
  "collectAll acc [] = Inr acc"
| "collectAll acc (cr # rest) =
     (case collect acc cr of Inl msg \<Rightarrow> Inl msg | Inr acc' \<Rightarrow> collectAll acc' rest)"

text \<open>
  The route. An error that leaves the \<open>try\<close> of lines 67 to 174 is answered by the
  \<open>catch\<close> of line 175 with status 500.
\<close>

definition POST :: "(SingleRequest \<Rightarrow> GenResponse) \<Rightarrow> BatchRequestBody \<Rightarrow> HttpResponse" where
  "POST gen body =
     (case b_chunks body of
        None \<Rightarrow> JsonError 400 ''Missing required field: chunks array''
      | Some [] \<Rightarrow> JsonError 400 ''Missing required field: chunks array''
      | Some (c # cs) \<Rightarrow>
          if \<not> truthy (b_provider body) then JsonError 400 ''Missing required field: provider''
          else if b_provider body = Some ''minimax'' \<and> \<not> truthy (b_voice body)
            then JsonError 400 ''Missing required field 'voice' for MiniMax''
          else if b_provider body = Some ''elevenlabs'' \<and> \<not> truthy (b_elevenLabsVoiceId body)
            then JsonError 400 ''Missing required field 'elevenLabsVoiceId' for ElevenLabs''
          else if b_provider body \<noteq> Some ''minimax'' \<and> b_provider body \<noteq> Some ''elevenlabs''
            then JsonError 400 (''Unsupported provider: '' @ orElse (b_provider body) [])
          else
            let settled = map (generateChunk gen body) (c # cs)
            in case collectAll ([], []) (zip (c # cs) settled) of
                 Inl msg \<Rightarrow> JsonError 500 (''Batch processing failed: '' @ msg)
               | Inr folded \<Rightarrow>
                   let batchResults = fst folded;
                       errors = snd folded
                   in JsonBatch
                        \<lparr>resp_success = True,
                         resp_totalChunks = length (c # cs),
                         resp_successfulChunks = length (filter r_success batchResults),
                         resp_failedChunks =
                           length (filter (\<lambda>r. \<not> r_success r) batchResults),
                         resp_results = batchResults,
                         resp_errors = (if length errors > 0 then Some errors else None)\<rparr>)"

text \<open>
  The result the route records for an element that is not \<open>null\<close> whose promise settled
  as \<open>st\<close> (the two branches of \<open>collect\<close>, without the accumulators).
\<close>

definition settledResult :: "json \<Rightarrow> Settled \<Rightarrow> ChunkResult" where
  "settledResult chunk st =
     (case st of
        Fulfilled v \<Rightarrow> v
      | Rejected reason \<Rightarrow> failedResult chunk (orElse reason ''Unknown error''))"

text \<open>The element the page sends for a text chunk (lines 255 to 258).\<close>

definition chunkJson :: "TextChunk \<Rightarrow> json" where
  "chunkJson chunk =
     JObj [(''index'', JNum (int (index chunk))), (''text'', JStr (chunk_text chunk))]"

section \<open>The component state of \<open>page.tsx\<close>\<close>

datatype Status = Pending | Generating | Completed | Failed

record AudioChunk =
  a_chunkIndex :: nat
  a_audioUrl :: string
  a_duration :: nat
  a_filename :: string
  a_status :: Status
  a_error :: "string option"
  a_text :: jsString

record BatchProgress =
  totalBatches :: nat
  completedBatches :: nat
  currentBatch :: nat
  totalChunks :: nat
  completedChunks :: nat
  failedChunks :: nat

datatype MessageType = MsgSuccess | MsgError | MsgInfo

text \<open>
  The messages of \<open>showMessage\<close>, by the template they fill, with the numbers they print:
  \<^item> \<open>NoMessage\<close>: the empty message of \<open>setMessage('')\<close>;
  \<^item> \<open>EnterText\<close>: "Please enter some text to generate audio";
  \<^item> \<open>SelectVoice\<close>: "Please select a voice";
  \<^item> \<open>NoChunks\<close>: "No text chunks to process";
  \<^item> \<open>Starting b c\<close>: "Starting batch processing: b batches, c chunks total";
  \<^item> \<open>PausedByUser\<close>: "Generation paused by user";
  \<^item> \<open>Waiting\<close>: "Waiting 3 seconds before next batch...";
  \<^item> \<open>GenerationCompleted c t\<close>: "Generation completed! c/t chunks successful (rate%)";
  \<^item> \<open>GenerationPaused\<close>, \<open>GenerationResumed\<close>: "Generation paused", "Generation resumed";
  \<^item> \<open>NoCompleted\<close>: "No completed audio chunks to download";
  \<^item> \<open>CreatingZip\<close>: "Creating ZIP file...";
  \<^item> \<open>Downloaded n\<close>: "Downloaded n audio files as ZIP";
  \<^item> \<open>ZipFailed m\<close>: "Failed to create ZIP: m".
\<close>

datatype Message =
    NoMessage | EnterText | SelectVoice | NoChunks | Starting nat nat | PausedByUser
  | Waiting | GenerationCompleted nat nat | GenerationPaused | GenerationResumed
  | NoCompleted | CreatingZip | Downloaded nat | ZipFailed string

text \<open>The state the handlers set.\<close>

record AppState =
  audioChunks :: "AudioChunk list"
  batchProgress :: "BatchProgress option"
  isGenerating :: bool
  isPaused :: bool
  message :: Message
  messageType :: MessageType

text \<open>
  The values a handler reads: the constants of the render that created it. A handler
  that is running keeps the values of its own render, whatever the setters are given
  meanwhile.
\<close>

record Render =
  v_text :: jsString
  v_selectedProvider :: string
  v_selectedVoice :: string
  v_selectedModel :: string
  v_textChunks :: "TextChunk list"
  v_isPaused :: bool
  v_batchProgress :: "BatchProgress option"

text \<open>\<open>showMessage\<close>; the timer that clears a message after five seconds is left out.\<close>

definition showMessage :: "Message \<Rightarrow> MessageType \<Rightarrow> AppState \<Rightarrow> AppState" where
  "showMessage msg type s = s\<lparr>message := msg, messageType := type\<rparr>"

text \<open>
  \<open>handlePauseResume\<close>, lines 430 to 437, run by a click on the pause button in the
  render of state \<open>s\<close>.
\<close>

definition handlePauseResume :: "AppState \<Rightarrow> AppState" where
  "handlePauseResume s =
     showMessage (if \<not> isPaused s then GenerationPaused else GenerationResumed) MsgInfo
       (s\<lparr>isPaused := \<not> isPaused s\<rparr>)"

section \<open>The scheduler (\<open>processBatch\<close> and \<open>handleGenerateAudio\<close> of \<open>page.tsx\<close>)\<close>

text \<open>
  What the world does during one batch: \<open>net\<close> is the fate of the fetch to the batch
  route (it rejects, or the request is served by \<open>POST\<close> over some generation
  behaviour), and \<open>clicks\<close> counts the clicks on the pause button while the batch and the
  delay after it are awaited.
\<close>

datatype BatchFetch = FetchRejects string | Served "SingleRequest \<Rightarrow> GenResponse"

record BatchEnv =
  net :: BatchFetch
  clicks :: nat

text \<open>Lines 253 to 286; \<open>Inl\<close> is the thrown error's message.\<close>

definition processBatch ::
  "Render \<Rightarrow> BatchFetch \<Rightarrow> TextChunk list \<Rightarrow> nat \<Rightarrow> string + ChunkResult list" where
  "processBatch v fetch batchChunks batchIndex =
     (let requestBody =
            \<lparr>b_chunks = Some (map chunkJson batchChunks),
             b_provider = Some (v_selectedProvider v),
             b_voice = (if v_selectedProvider v = ''minimax''
                        then Some (v_selectedVoice v) else None),
             b_model = (if v_selectedProvider v = ''minimax''
                        then Some (v_selectedModel v) else None),
             b_elevenLabsVoiceId = (if v_selectedProvider v = ''elevenlabs''
                                    then Some (v_selectedVoice v) else None),
             b_userId = Some ''demo_user''\<rparr>
      in case fetch of
           FetchRejects msg \<Rightarrow> Inl msg
         | Served gen \<Rightarrow>
             (case POST gen requestBody of
                JsonError status err \<Rightarrow>
                  Inl (orElse (Some err)
                        (''Batch '' @ showNat (batchIndex + 1) @ '' failed: '' @ showNat status))
              | JsonBatch data \<Rightarrow> Inr (resp_results data)))"

definition batchSize :: nat where
  "batchSize = 10"

text \<open>\<open>xs.slice(a, b)\<close> for \<open>0 \<le> a\<close> and \<open>0 \<le> b\<close>.\<close>

definition slice :: "'a list \<Rightarrow> nat \<Rightarrow> nat \<Rightarrow> 'a list" where
  "slice xs a b = take (b - a) (drop a xs)"

text \<open>The three updates of \<open>audioChunks\<close> (lines 352, 362 and 394).\<close>

definition markGenerating :: "TextChunk list \<Rightarrow> AudioChunk list \<Rightarrow> AudioChunk list" where
  "markGenerating batchChunks prev =
     map (\<lambda>chunk. if list_ex (\<lambda>bc. index bc = a_chunkIndex chunk) batchChunks
                   then chunk\<lparr>a_status := Generating\<rparr> else chunk) prev"

definition applyResults :: "ChunkResult list \<Rightarrow> AudioChunk list \<Rightarrow> AudioChunk list" where
  "applyResults results prev =
     map (\<lambda>chunk.
            case find (\<lambda>r. r_chunkIndex r = Some (JNum (int (a_chunkIndex chunk)))) results of
              Some result \<Rightarrow>
                chunk\<lparr>a_status := (if r_success result then Completed else Failed),
                       a_audioUrl := orElse (r_audioUrl result) [],
                       a_duration := (case r_duration result of Some d \<Rightarrow> d | None \<Rightarrow> 0),
                       a_filename := orElse (r_filename result) [],
                       a_error := r_error result\<rparr>
            | None \<Rightarrow> chunk) prev"

definition markFailed :: "string \<Rightarrow> TextChunk list \<Rightarrow> AudioChunk list \<Rightarrow> AudioChunk list" where
  "markFailed msg batchChunks prev =
     map (\<lambda>chunk. if list_ex (\<lambda>bc. index bc = a_chunkIndex chunk) batchChunks
                   then chunk\<lparr>a_status := Failed, a_error := Some msg\<rparr> else chunk) prev"

text \<open>The two updates of \<open>batchProgress\<close> after a batch (lines 381 and 400).\<close>

definition settleProgress :: "nat \<Rightarrow> ChunkResult list \<Rightarrow> BatchProgress \<Rightarrow> BatchProgress" where
  "settleProgress batchIndex results prev =
     prev\<lparr>completedBatches := batchIndex + 1,
           completedChunks := completedChunks prev + length (filter r_success results),
           failedChunks := failedChunks prev + length (filter (\<lambda>r. \<not> r_success r) results)\<rparr>"

definition failProgress :: "nat \<Rightarrow> TextChunk list \<Rightarrow> BatchProgress \<Rightarrow> BatchProgress" where
  "failProgress batchIndex batchChunks prev =
     prev\<lparr>completedBatches := batchIndex + 1,
           failedChunks := failedChunks prev + length batchChunks\<rparr>"

definition batchChunksOf :: "Render \<Rightarrow> nat \<Rightarrow> TextChunk list" where
  "batchChunksOf v batchIndex =
     (let batchStart = batchIndex * batchSize;
          batchEnd = min (batchStart + batchSize) (length (v_textChunks v))
      in slice (v_textChunks v) batchStart batchEnd)"

text \<open>
  The body of the \<open>for\<close> loop after the pause check, lines 341 to 411, for the batch
  \<open>batchIndex\<close> of \<open>nBatches\<close>, from the state \<open>s\<close>.
\<close>

definition batchBody :: "Render \<Rightarrow> BatchEnv \<Rightarrow> nat \<Rightarrow> nat \<Rightarrow> AppState \<Rightarrow> AppState" where
  "batchBody v e nBatches batchIndex s =
     (let batchChunks = batchChunksOf v batchIndex;
          s1 = s\<lparr>batchProgress :=
                   map_option (\<lambda>prev. prev\<lparr>currentBatch := batchIndex + 1\<rparr>) (batchProgress s)\<rparr>;
          s2 = s1\<lparr>audioChunks := markGenerating batchChunks (audioChunks s1)\<rparr>;
          s3 = (case processBatch v (net e) batchChunks batchIndex of
                  Inr results \<Rightarrow>
                    s2\<lparr>audioChunks := applyResults results (audioChunks s2),
                        batchProgress :=
                          map_option (settleProgress batchIndex results) (batchProgress s2)\<rparr>
                | Inl msg \<Rightarrow>
                    s2\<lparr>audioChunks := markFailed msg batchChunks (audioChunks s2),
                        batchProgress :=
                          map_option (failProgress batchIndex batchChunks) (batchProgress s2)\<rparr>);
          s4 = (handlePauseResume ^^ clicks e) s3
      in if batchIndex < nBatches - 1 \<and> \<not> v_isPaused v
         then showMessage Waiting MsgInfo s4 else s4)"

text \<open>
  The \<open>for\<close> loop, lines 335 to 412. The result is the list of the states the loop
  sets, one per iteration, in order; the check \<open>if (isPaused)\<close> reads the constant of the
  handler's render.
\<close>

function batchLoop ::
  "Render \<Rightarrow> (nat \<Rightarrow> BatchEnv) \<Rightarrow> nat \<Rightarrow> nat \<Rightarrow> AppState \<Rightarrow> AppState list" where
  "batchLoop v env nBatches batchIndex s =
     (if batchIndex < nBatches then
        (if v_isPaused v then [showMessage PausedByUser MsgInfo s]
         else batchBody v (env batchIndex) nBatches batchIndex s
                # batchLoop v env nBatches (batchIndex + 1)
                    (batchBody v (env batchIndex) nBatches batchIndex s))
      else [])"
  by pat_completeness auto
termination
  by (relation "measure (\<lambda>(v, env, nBatches, batchIndex, s). nBatches - batchIndex)") auto

declare batchLoop.simps [simp del]

text \<open>
  \<open>handleGenerateAudio\<close>, lines 289 to 427: the states it sets, in order, from the
  state \<open>s\<close>; the last one is the state after the \<open>finally\<close> block.
\<close>

definition initialAudioChunks :: "TextChunk list \<Rightarrow> AudioChunk list" where
  "initialAudioChunks cs =
     map (\<lambda>chunk. \<lparr>a_chunkIndex = index chunk, a_audioUrl = [], a_duration = 0,
                     a_filename = [], a_status = Pending, a_error = None,
                     a_text = chunk_text chunk\<rparr>) cs"

definition startState :: "Render \<Rightarrow> AppState \<Rightarrow> AppState" where
  "startState v s =
     (let nBatches = (length (v_textChunks v) + batchSize - 1) div batchSize
      in showMessage (Starting nBatches (length (v_textChunks v))) MsgInfo
           (s\<lparr>isGenerating := True, isPaused := False, message := NoMessage,
               audioChunks := initialAudioChunks (v_textChunks v),
               batchProgress := Some \<lparr>totalBatches = nBatches, completedBatches = 0,
                                       currentBatch = 1,
                                       totalChunks = length (v_textChunks v),
                                       completedChunks = 0, failedChunks = 0\<rparr>\<rparr>))"

definition handleGenerateAudio ::
  "Render \<Rightarrow> (nat \<Rightarrow> BatchEnv) \<Rightarrow> AppState \<Rightarrow> AppState list" where
  "handleGenerateAudio v env s =
     (if trim (v_text v) = [] then [showMessage EnterText MsgError s]
      else if v_selectedVoice v = [] then [showMessage SelectVoice MsgError s]
      else if length (v_textChunks v) = 0 then [showMessage NoChunks MsgError s]
      else
        let nBatches = (length (v_textChunks v) + batchSize - 1) div batchSize;
            s0 = startState v s;
            trace = batchLoop v env nBatches 0 s0;
            s1 = last (s0 # trace);
            s2 = (case v_batchProgress v of
                    Some finalProgress \<Rightarrow>
                      showMessage
                        (GenerationCompleted (completedChunks finalProgress)
                           (totalChunks finalProgress))
                        (if failedChunks finalProgress = 0 then MsgSuccess else MsgInfo) s1
                  | None \<Rightarrow> s1)
        in s0 # trace @ [s2\<lparr>isGenerating := False, isPaused := False\<rparr>])"

section \<open>The export (\<open>handleDownloadAllAsZip\<close> of \<open>page.tsx\<close>)\<close>

type_synonym blob = string
type_synonym archive = "(string \<times> blob) list"

definition padStart :: "nat \<Rightarrow> char \<Rightarrow> string \<Rightarrow> string" where
  "padStart n c s = replicate (n - length s) c @ s"

definition zipName :: "AudioChunk \<Rightarrow> string" where
  "zipName chunk = padStart 3 CHR ''0'' (showNat (a_chunkIndex chunk + 1)) @ ''_'' @ a_filename chunk"

text \<open>\<open>zip.file(name, data)\<close>: the entry of that name is added or replaced.\<close>

definition zipFile :: "archive \<Rightarrow> string \<Rightarrow> blob \<Rightarrow> archive" where
  "zipFile jszip name data = filter (\<lambda>e. fst e \<noteq> name) jszip @ [(name, data)]"

text \<open>
  Lines 450 to 486. \<open>fetchBlob url\<close> is the blob behind an audio URL, \<open>None\<close> when the
  fetch throws (the chunk is then skipped); \<open>zipError\<close> is the message of the error that
  generating or saving the archive throws, if it does. The result is the new state and
  the archive handed to \<open>saveAs\<close>, if any.
\<close>

definition handleDownloadAllAsZip ::
  "(string \<Rightarrow> blob option) \<Rightarrow> string option \<Rightarrow> AppState \<Rightarrow> AppState \<times> archive option" where
  "handleDownloadAllAsZip fetchBlob zipError s =
     (let completed = filter (\<lambda>chunk. a_status chunk = Completed) (audioChunks s)
      in if length completed = 0 then (showMessage NoCompleted MsgError s, None)
         else
           let s1 = showMessage CreatingZip MsgInfo s;
               jszip = foldl (\<lambda>z chunk. case fetchBlob (a_audioUrl chunk) of
                                         Some audioBlob \<Rightarrow> zipFile z (zipName chunk) audioBlob
                                       | None \<Rightarrow> z) [] completed
           in case zipError of
                Some msg \<Rightarrow> (showMessage (ZipFailed msg) MsgError s1, None)
              | None \<Rightarrow> (showMessage (Downloaded (length completed)) MsgSuccess s1, Some jszip))"

section \<open>Progress of a run\<close>

text \<open>
  \<open>progressBounded n s\<close>: the state has a progress record for \<open>n\<close> chunks whose two
  counters sum to at most \<open>totalChunks\<close>. \<open>progressLe s t\<close>: from \<open>s\<close> to \<open>t\<close> neither
  counter went down and \<open>totalChunks\<close> is the same.
\<close>

definition progressBounded :: "nat \<Rightarrow> AppState \<Rightarrow> bool" where
  "progressBounded n s =
     (case batchProgress s of
        Some p \<Rightarrow> totalChunks p = n \<and> completedChunks p + failedChunks p \<le> totalChunks p
      | None \<Rightarrow> False)"

definition progressLe :: "AppState \<Rightarrow> AppState \<Rightarrow> bool" where
  "progressLe s t =
     (case (batchProgress s, batchProgress t) of
        (Some p, Some q) \<Rightarrow> completedChunks p \<le> completedChunks q
                           \<and> failedChunks p \<le> failedChunks q
                           \<and> totalChunks p = totalChunks q
      | _ \<Rightarrow> False)"

section \<open>Sample runs\<close>

text \<open>
  The component's first state, \<open>n\<close> one-letter chunks, a render over them (the second
  argument is the \<open>isPaused\<close> the handler reads), and three worlds: every generation
  succeeds and the pause button is clicked once while the first batch is awaited; the
  network is down; the chunk of index 3 fails and the second batch cannot be sent.
\<close>

definition idleState :: AppState where
  "idleState = \<lparr>audioChunks = [], batchProgress = None, isGenerating = False,
                 isPaused = False, message = NoMessage, messageType = MsgInfo\<rparr>"

definition sampleChunks :: "nat \<Rightarrow> TextChunk list" where
  "sampleChunks n =
     map (\<lambda>i. \<lparr>index = i, chunk_text = utf16 ''a'', startChar = i, endChar = i + 1\<rparr>) [0..<n]"

definition sampleRender :: "nat \<Rightarrow> bool \<Rightarrow> Render" where
  "sampleRender n paused =
     \<lparr>v_text = utf16 ''a'', v_selectedProvider = ''minimax'',
      v_selectedVoice = ''English_radiant_girl'', v_selectedModel = ''speech-02-hd'',
      v_textChunks = sampleChunks n, v_isPaused = paused, v_batchProgress = None\<rparr>"

definition allGood :: "SingleRequest \<Rightarrow> GenResponse" where
  "allGood r = GenOk (Some ''u'') (Some 1) (Some ''f.mp3'')"

definition pauseAfterFirst :: "nat \<Rightarrow> BatchEnv" where
  "pauseAfterFirst k = \<lparr>net = Served allGood, clicks = (if k = 0 then 1 else 0)\<rparr>"

definition networkDown :: "nat \<Rightarrow> BatchEnv" where
  "networkDown k = \<lparr>net = FetchRejects ''Failed to fetch'', clicks = 0\<rparr>"

definition flaky :: "nat \<Rightarrow> BatchEnv" where
  "flaky k =
     (if k = 1 then networkDown k
      else \<lparr>net = Served (\<lambda>r. if s_chunkIndex r = Some (JNum 3) then GenThrows ''boom'' else allGood r),
             clicks = 0\<rparr>)"


definition sampleJobs :: "Status list \<Rightarrow> AppState" where
  "sampleJobs sts =
     idleState\<lparr>audioChunks :=
       map (\<lambda>(i, st). \<lparr>a_chunkIndex = i, a_audioUrl = ''blob:'' @ showNat i, a_duration = 1,
                         a_filename = ''f.mp3'', a_status = st, a_error = None,
                         a_text = utf16 ''a''\<rparr>) (enumerate 0 sts)\<rparr>"

definition pausedRun :: "AppState list" where
  "pausedRun = handleGenerateAudio (sampleRender 21 False) pauseAfterFirst idleState"

definition brokenRun :: "AppState list" where
  "brokenRun = handleGenerateAudio (sampleRender 21 True) pauseAfterFirst idleState"

section \<open>Facts about trimming\<close>

lemma trim_decomp:
  "\<exists>l r. s = l @ trim s @ r \<and> (\<forall>x\<in>set l. isWhiteSpace x) \<and> (\<forall>x\<in>set r. isWhiteSpace x)"
proof -
  define d where "d = dropWhile isWhiteSpace s"
  have s: "s = takeWhile isWhiteSpace s @ d"
    by (simp add: d_def)
  have "rev (dropWhile isWhiteSpace (rev d)) @ rev (takeWhile isWhiteSpace (rev d)) = d"
    by (simp only: rev_append [symmetric] takeWhile_dropWhile_id rev_rev_ident)
  then have d: "d = trim s @ rev (takeWhile isWhiteSpace (rev d))"
    by (simp add: trim_def d_def)
  have l: "\<forall>x\<in>set (takeWhile isWhiteSpace s). isWhiteSpace x"
    by (auto dest: set_takeWhileD)
  have r: "\<forall>x\<in>set (rev (takeWhile isWhiteSpace (rev d))). isWhiteSpace x"
    by (auto dest: set_takeWhileD)
  from s d have "s = takeWhile isWhiteSpace s @ trim s @ rev (takeWhile isWhiteSpace (rev d))"
    by simp
  with l r show ?thesis by blast
qed

lemma length_trim_le: "length (trim s) \<le> length s"
proof -
  obtain l r where "s = l @ trim s @ r" using trim_decomp by blast
  then have "length s = length l + length (trim s) + length r"
    by (metis length_append add.assoc)
  then show ?thesis by simp
qed

lemma dropWhile_all_iff: "(\<forall>x\<in>set (dropWhile P xs). P x) \<longleftrightarrow> (\<forall>x\<in>set xs. P x)"
  by (induction xs) auto

lemma trim_empty_iff: "trim s = [] \<longleftrightarrow> (\<forall>x\<in>set s. isWhiteSpace x)"
  by (simp add: trim_def dropWhile_eq_Nil_conv dropWhile_all_iff)

lemma trim_hd: "trim s \<noteq> [] \<Longrightarrow> \<not> isWhiteSpace (hd (trim s))"
proof -
  assume ne: "trim s \<noteq> []"
  define d where "d = dropWhile isWhiteSpace s"
  have dne: "d \<noteq> []"
  proof
    assume "d = []"
    then have "dropWhile isWhiteSpace s = []" by (simp only: d_def)
    then have "trim s = []" by (simp only: trim_def rev.simps dropWhile.simps)
    with ne show False by simp
  qed
  then have hd: "\<not> isWhiteSpace (hd d)" unfolding d_def by (rule hd_dropWhile)
  have "d = trim s @ rev (takeWhile isWhiteSpace (rev d))"
    using takeWhile_dropWhile_id[of isWhiteSpace "rev d"]
    by (metis d_def rev_append rev_rev_ident trim_def)
  then have "hd d = hd (trim s)" using ne by (metis hd_append2)
  with hd show ?thesis by simp
qed

lemma trim_last: "trim s \<noteq> [] \<Longrightarrow> \<not> isWhiteSpace (last (trim s))"
proof -
  assume ne: "trim s \<noteq> []"
  then have "dropWhile isWhiteSpace (rev (dropWhile isWhiteSpace s)) \<noteq> []"
    by (simp add: trim_def)
  then have "\<not> isWhiteSpace (hd (dropWhile isWhiteSpace (rev (dropWhile isWhiteSpace s))))"
    by (rule hd_dropWhile)
  then show ?thesis using ne by (simp add: trim_def last_rev)
qed

lemma trim_fixed: "s \<noteq> [] \<Longrightarrow> \<not> isWhiteSpace (hd s) \<Longrightarrow> \<not> isWhiteSpace (last s) \<Longrightarrow> trim s = s"
proof -
  assume a: "s \<noteq> []" "\<not> isWhiteSpace (hd s)" "\<not> isWhiteSpace (last s)"
  then have 1: "dropWhile isWhiteSpace s = s" by (cases s) auto
  have "rev s \<noteq> []" "\<not> isWhiteSpace (hd (rev s))" using a by (auto simp: hd_rev)
  then have "dropWhile isWhiteSpace (rev s) = rev s" by (cases "rev s") auto
  with 1 show ?thesis by (simp add: trim_def)
qed

lemma trim_trim: "trim (trim s) = trim s"
proof (cases "trim s = []")
  case True
  then have "trim (trim s) = trim []" by simp
  also have "trim [] = []" by (simp add: trim_def)
  finally show ?thesis using True by simp
next
  case False
  then show ?thesis by (intro trim_fixed trim_hd trim_last)
qed

lemma length_trim_last_ws:
  assumes "s \<noteq> []" "isWhiteSpace (last s)"
  shows "length (trim s) < length s"
proof (cases "trim s = []")
  case True
  with assms show ?thesis by simp
next
  case False
  then have nl: "\<not> isWhiteSpace (last (trim s))" by (rule trim_last)
  obtain l r where s: "s = l @ trim s @ r" using trim_decomp by blast
  have "r \<noteq> []"
  proof
    assume "r = []"
    with s have "s = l @ trim s" by simp
    then have "last s = last (trim s)" using False by (metis last_appendR)
    with nl assms show False by simp
  qed
  moreover from s have "length s = length l + length (trim s) + length r"
    by (metis length_append add.assoc)
  ultimately show ?thesis by (cases r) auto
qed

lemma trim_last_nonws:
  assumes "s \<noteq> []" "\<not> isWhiteSpace (last s)"
  shows "trim s \<noteq> []"
  using assms by (auto simp: trim_empty_iff)

section \<open>Facts about the split position\<close>

lemma lastIndexOf_lower: "- 1 \<le> lastIndexOf s c k"
  by (induction k) auto

lemma lastIndexOf_found:
  "lastIndexOf s c k = int j \<Longrightarrow> j \<le> k \<and> j < length s \<and> s ! j = c"
proof (induction k)
  case 0
  then show ?case by (auto split: if_splits)
next
  case (Suc k)
  show ?case
  proof (cases "Suc k < length s \<and> s ! Suc k = c")
    case True
    with Suc.prems have "int (Suc k) = int j" by simp
    then have "j = Suc k" by linarith
    with True show ?thesis by simp
  next
    case False
    with Suc.prems have "lastIndexOf s c k = int j" by auto
    from Suc.IH [OF this] show ?thesis by simp
  qed
qed

lemma lastIndexOf_absent: "c \<notin> set s \<Longrightarrow> lastIndexOf s c k = - 1"
  by (induction k) auto

lemma isLineBreak_isWhiteSpace: "isLineBreak c \<Longrightarrow> isWhiteSpace c"
  by (auto simp: isLineBreak_def isWhiteSpace_def)

lemma space_isWhiteSpace: "isWhiteSpace space"
  by (simp add: isWhiteSpace_def space_def)

lemma matchHere_no_ws: "\<forall>x\<in>set s. \<not> isWhiteSpace x \<Longrightarrow> matchHere s = None"
proof (cases s)
  case Nil
  then show ?thesis by simp
next
  case (Cons c cs)
  assume a: "\<forall>x\<in>set s. \<not> isWhiteSpace x"
  with Cons have "takeWhile isWhiteSpace cs = []" by (cases cs) auto
  moreover from a Cons have "\<not> isLineBreak c" by (auto dest: isLineBreak_isWhiteSpace)
  ultimately show ?thesis using Cons by simp
qed

lemma execAll_no_ws: "\<forall>x\<in>set s. \<not> isWhiteSpace x \<Longrightarrow> execAll s i = []"
proof (induction s arbitrary: i)
  case Nil
  then show ?case by simp
next
  case (Cons c cs)
  have "matchHere (c # cs) = None" using Cons.prems by (rule matchHere_no_ws)
  moreover have "execAll cs (i + 1) = []" using Cons by simp
  ultimately show ?case by simp
qed

lemma splitPosition_cases:
  assumes "1 \<le> maxLength"
  shows "(currentPosition < splitPosition text maxLength currentPosition
            \<and> splitPosition text maxLength currentPosition \<le> currentPosition + maxLength)
       \<or> (\<exists>k. splitPosition text maxLength currentPosition = Suc k \<and> currentPosition < k
              \<and> k \<le> currentPosition + maxLength \<and> k < length text \<and> text ! k = space)"
proof -
  let ?e = "currentPosition + maxLength"
  let ?lm = "lastMatchPosition text currentPosition ?e"
  let ?sp = "lastIndexOf text space ?e"
  show ?thesis
  proof (cases "?lm > int currentPosition \<and> ?lm \<le> int ?e")
    case True
    then have "splitPosition text maxLength currentPosition = nat ?lm"
      by (simp add: splitPosition_def Let_def)
    with True show ?thesis by auto
  next
    case lm: False
    show ?thesis
    proof (cases "?sp > int currentPosition")
      case True
      then obtain j where j: "?sp = int j"
        using zero_le_imp_eq_int [of ?sp] by auto
      have sp: "splitPosition text maxLength currentPosition = Suc j"
        using lm True j by (auto simp: splitPosition_def Let_def nat_add_distrib)
      from lastIndexOf_found [OF j] True j sp show ?thesis by auto
    next
      case False
      then have "splitPosition text maxLength currentPosition = ?e"
        using lm by (auto simp: splitPosition_def Let_def)
      with assms show ?thesis by simp
    qed
  qed
qed

lemma splitPosition_advances:
  assumes "1 \<le> maxLength"
  shows "currentPosition < splitPosition text maxLength currentPosition"
  using splitPosition_cases [OF assms, of currentPosition "text"] by auto

lemma splitPosition_inside:
  assumes "1 \<le> maxLength" "currentPosition + maxLength < length text"
  shows "splitPosition text maxLength currentPosition \<le> length text"
  using splitPosition_cases [OF assms(1), of currentPosition "text"] assms(2) by auto

lemma substring_ordered: "a \<le> b \<Longrightarrow> substring s a b = take (b - a) (drop a s)"
  by (simp add: substring_def max_def min_def)

lemma length_substring: "a \<le> b \<Longrightarrow> b \<le> length s \<Longrightarrow> length (substring s a b) = b - a"
  by (simp add: substring_ordered)

lemma last_substring:
  assumes "a < b" "b \<le> length s"
  shows "last (substring s a b) = s ! (b - 1)"
proof -
  have ne: "substring s a b \<noteq> []" using assms by (simp add: substring_ordered)
  have "last (substring s a b) = substring s a b ! (b - a - 1)"
    using ne assms by (simp add: last_conv_nth length_substring)
  also have "\<dots> = s ! (b - 1)" using assms by (simp add: substring_ordered)
  finally show ?thesis .
qed

lemma splitPosition_chunk_bound:
  assumes m: "1 \<le> maxLength" and inside: "currentPosition + maxLength < length text"
  shows "length (trim (substring text currentPosition (splitPosition text maxLength currentPosition))) \<le> maxLength"
proof -
  let ?q = "splitPosition text maxLength currentPosition"
  have adv: "currentPosition < ?q" using m by (rule splitPosition_advances)
  have ins: "?q \<le> length text" using m inside by (rule splitPosition_inside)
  have len: "length (substring text currentPosition ?q) = ?q - currentPosition"
    using adv ins by (simp add: length_substring)
  from splitPosition_cases [OF m, of currentPosition "text"] show ?thesis
  proof
    assume "currentPosition < ?q \<and> ?q \<le> currentPosition + maxLength"
    then have "length (substring text currentPosition ?q) \<le> maxLength" using len by linarith
    with length_trim_le [of "substring text currentPosition ?q"] show ?thesis by simp
  next
    assume "\<exists>k. ?q = Suc k \<and> currentPosition < k \<and> k \<le> currentPosition + maxLength
              \<and> k < length text \<and> text ! k = space"
    then obtain k where k: "?q = Suc k" "k \<le> currentPosition + maxLength" "text ! k = space"
      by blast
    have "last (substring text currentPosition ?q) = text ! (?q - 1)"
      using adv ins by (rule last_substring)
    then have "isWhiteSpace (last (substring text currentPosition ?q))"
      using k space_isWhiteSpace by simp
    moreover have "substring text currentPosition ?q \<noteq> []"
      using len adv by auto
    ultimately have "length (trim (substring text currentPosition ?q)) < ?q - currentPosition"
      using length_trim_last_ws len by metis
    with k show ?thesis by simp
  qed
qed

lemma splitPosition_hard_cut:
  assumes "\<forall>x\<in>set text. \<not> isWhiteSpace x"
  shows "splitPosition text maxLength currentPosition = currentPosition + maxLength"
proof -
  have "\<forall>x\<in>set (substring text currentPosition (currentPosition + maxLength)). \<not> isWhiteSpace x"
    using assms by (auto simp: substring_def dest!: in_set_takeD in_set_dropD)
  then have "lastMatchPosition text currentPosition (currentPosition + maxLength) = - 1"
    by (simp add: lastMatchPosition_def execAll_no_ws)
  moreover have "space \<notin> set text" using assms space_isWhiteSpace by auto
  then have "lastIndexOf text space (currentPosition + maxLength) = - 1"
    by (rule lastIndexOf_absent)
  ultimately show ?thesis by (simp add: splitPosition_def Let_def)
qed

section \<open>An invariant rule for the chunking loop\<close>

text \<open>
  For \<open>maxLength \<ge> 1\<close> the loop returns, and an invariant \<open>I\<close> kept by the two
  kinds of iteration (a chunk is emitted, a blank candidate is dropped) gives \<open>Q\<close> at
  both exits (the remainder chunk of line 170, and the loop condition).
\<close>

lemma chunkLoop_rule:
  assumes m: "1 \<le> maxLength"
    and inv: "I currentPosition chunkIndex chunks"
    and emit: "\<And>p i cs. I p i cs \<Longrightarrow> p + maxLength < length text \<Longrightarrow>
        trim (substring text p (splitPosition text maxLength p)) \<noteq> [] \<Longrightarrow>
        I (splitPosition text maxLength p) (i + 1)
          (cs @ [\<lparr>index = i,
                   chunk_text = trim (substring text p (splitPosition text maxLength p)),
                   startChar = p, endChar = splitPosition text maxLength p\<rparr>])"
    and skip: "\<And>p i cs. I p i cs \<Longrightarrow> p + maxLength < length text \<Longrightarrow>
        trim (substring text p (splitPosition text maxLength p)) = [] \<Longrightarrow>
        I (splitPosition text maxLength p) i cs"
    and final: "\<And>p i cs. I p i cs \<Longrightarrow> p < length text \<Longrightarrow> length text \<le> p + maxLength \<Longrightarrow>
        Q (cs @ [\<lparr>index = i, chunk_text = substringFrom text p,
                   startChar = p, endChar = length text\<rparr>])"
    and exit: "\<And>p i cs. I p i cs \<Longrightarrow> length text \<le> p \<Longrightarrow> Q cs"
  shows "\<exists>r. chunkLoop text maxLength currentPosition chunkIndex chunks = Some r \<and> Q r"
  using inv
proof (induction "length text - currentPosition" arbitrary: currentPosition chunkIndex chunks
    rule: less_induct)
  case less
  let ?q = "splitPosition text maxLength currentPosition"
  let ?t = "trim (substring text currentPosition ?q)"
  consider (finished) "length text \<le> currentPosition"
    | (remainder) "currentPosition < length text" "length text \<le> currentPosition + maxLength"
    | (step) "currentPosition + maxLength < length text"
    by linarith
  then show ?case
  proof cases
    case finished
    then have "chunkLoop text maxLength currentPosition chunkIndex chunks = Some chunks"
      by (subst chunkLoop.simps) simp
    moreover have "Q chunks" using less.prems finished by (rule exit)
    ultimately show ?thesis by simp
  next
    case remainder
    then have "chunkLoop text maxLength currentPosition chunkIndex chunks =
        Some (chunks @ [\<lparr>index = chunkIndex, chunk_text = substringFrom text currentPosition,
                          startChar = currentPosition, endChar = length text\<rparr>])"
      by (subst chunkLoop.simps) simp
    moreover have "Q (chunks @ [\<lparr>index = chunkIndex, chunk_text = substringFrom text currentPosition,
                          startChar = currentPosition, endChar = length text\<rparr>])"
      using less.prems remainder by (rule final)
    ultimately show ?thesis by simp
  next
    case step
    have adv: "currentPosition < ?q" using m by (rule splitPosition_advances)
    have ins: "?q \<le> length text" using m step by (rule splitPosition_inside)
    have dec: "length text - ?q < length text - currentPosition"
      using adv ins step by linarith
    show ?thesis
    proof (cases "?t = []")
      case True
      then have unf: "chunkLoop text maxLength currentPosition chunkIndex chunks =
          chunkLoop text maxLength ?q chunkIndex chunks"
        using step by (subst chunkLoop.simps) (simp add: Let_def)
      have "I ?q chunkIndex chunks" using less.prems step True by (rule skip)
      from less.hyps [OF dec this] unf show ?thesis by simp
    next
      case False
      then have unf: "chunkLoop text maxLength currentPosition chunkIndex chunks =
          chunkLoop text maxLength ?q (chunkIndex + 1)
            (chunks @ [\<lparr>index = chunkIndex, chunk_text = ?t,
                         startChar = currentPosition, endChar = ?q\<rparr>])"
        using step by (subst chunkLoop.simps) (simp add: Let_def)
      have "I ?q (chunkIndex + 1)
            (chunks @ [\<lparr>index = chunkIndex, chunk_text = ?t,
                         startChar = currentPosition, endChar = ?q\<rparr>])"
        using less.prems step False by (rule emit)
      from less.hyps [OF dec this] unf show ?thesis by simp
    qed
  qed
qed

section \<open>Properties of the chunker\<close>

text \<open>
  C1. For every text and every \<open>maxLength \<ge> 1\<close>, \<open>chunkText\<close> returns, and every
  chunk it emits has a text of at most \<open>maxLength\<close> code units, trimmed or not; the
  hard cut is within the bound as well.
\<close>

theorem chunkText_length_bound:
  assumes "1 \<le> maxLength"
  shows "\<exists>cs. chunkText text maxLength = Some cs
           \<and> (\<forall>c\<in>set cs. length (chunk_text c) \<le> maxLength
                         \<and> length (trim (chunk_text c)) \<le> maxLength)"
proof (cases "text = [] \<or> length text \<le> maxLength")
  case True
  then have "length (trim text) \<le> maxLength"
    using length_trim_le [of "text"] by auto
  with True show ?thesis by (auto simp: chunkText_def)
next
  case False
  let ?P = "\<lambda>cs :: TextChunk list. \<forall>c\<in>set cs. length (chunk_text c) \<le> maxLength
                         \<and> length (trim (chunk_text c)) \<le> maxLength"
  have "\<exists>r. chunkLoop text maxLength 0 0 [] = Some r \<and> ?P r"
  proof (rule chunkLoop_rule [where I = "\<lambda>p i cs. ?P cs"])
    show "1 \<le> maxLength" by fact
    show "?P []" by simp
  next
    fix p i :: nat and cs :: "TextChunk list"
    assume a: "?P cs" "p + maxLength < length text"
    let ?t = "trim (substring text p (splitPosition text maxLength p))"
    have "length ?t \<le> maxLength" using assms a(2) by (rule splitPosition_chunk_bound)
    moreover have "length (trim ?t) \<le> length ?t" by (rule length_trim_le)
    ultimately show "?P (cs @ [\<lparr>index = i, chunk_text = ?t, startChar = p,
        endChar = splitPosition text maxLength p\<rparr>])"
      using a(1) by auto
  next
    fix p i :: nat and cs :: "TextChunk list"
    assume a: "?P cs" "p < length text" "length text \<le> p + maxLength"
    have "length (substringFrom text p) \<le> maxLength"
      using a by (simp add: substringFrom_def)
    moreover have "length (trim (substringFrom text p)) \<le> length (substringFrom text p)"
      by (rule length_trim_le)
    ultimately show "?P (cs @ [\<lparr>index = i, chunk_text = substringFrom text p,
        startChar = p, endChar = length text\<rparr>])"
      using a(1) by auto
  qed
  with False show ?thesis by (simp add: chunkText_def)
qed

theorem chunkText_length_bound_witness:
  "(1::nat) \<le> 4 \<and> (\<exists>cs. chunkText (utf16 ''abcd efghij'') 4 = Some cs
      \<and> (\<forall>c\<in>set cs. length (chunk_text c) \<le> 4 \<and> length (trim (chunk_text c)) \<le> 4))"
  using chunkText_length_bound [of 4 "utf16 ''abcd efghij''"] by simp

lemma substring_hard_cut_trim:
  assumes nows: "\<forall>x\<in>set text. \<not> isWhiteSpace x" and "p < length text" "0 < n"
  shows "trim (substring text p (p + n)) = substring text p (p + n)"
proof -
  let ?s = "substring text p (p + n)"
  have s: "?s = take n (drop p text)" by (simp add: substring_ordered)
  then have ne: "?s \<noteq> []" using assms by simp
  have "set ?s \<subseteq> set text" unfolding s by (meson set_take_subset set_drop_subset subset_trans)
  then have all: "\<forall>x\<in>set ?s. \<not> isWhiteSpace x" using nows by blast
  have "hd ?s \<in> set ?s" "last ?s \<in> set ?s" using ne by simp_all
  with all have "\<not> isWhiteSpace (hd ?s)" "\<not> isWhiteSpace (last ?s)" by blast+
  with ne show ?thesis by (rule trim_fixed)
qed

lemma take_split_substring:
  "p \<le> q \<Longrightarrow> take q s = take p s @ substring s p q"
proof -
  assume "p \<le> q"
  then have "take q s = take (p + (q - p)) s" by simp
  also have "\<dots> = take p s @ take (q - p) (drop p s)" by (rule take_add)
  finally show ?thesis using \<open>p \<le> q\<close> by (simp add: substring_ordered)
qed

lemma ceil_div_unique:
  assumes "1 \<le> (m::nat)" "i * m < n" "n \<le> i * m + m"
  shows "max 1 ((n + m - 1) div m) = i + 1"
proof -
  have "(n + m - 1) div m = i + 1"
  proof (rule div_nat_eqI)
    show "m * (i + 1) \<le> n + m - 1" using assms by (simp add: algebra_simps)
    show "n + m - 1 < m * Suc (i + 1)" using assms by (simp add: algebra_simps)
  qed
  then show ?thesis by simp
qed

text \<open>
  C3. For every text and every \<open>maxLength \<ge> 1\<close> the chunker returns: each iteration
  moves \<open>currentPosition\<close> strictly forward and never past the end of the text. For a
  text without white space (a single long token) it produces exactly the hard cuts: the
  result is the list of the slices \<open>[k * maxLength, k * maxLength + maxLength)\<close> for
  \<open>k = 0, ..., N - 1\<close>, \<open>N\<close> the length divided by \<open>maxLength\<close> and rounded up (one
  chunk for the empty text), each of at most \<open>maxLength\<close> code units, and their texts
  put end to end are the text.
\<close>

theorem chunkText_terminates:
  assumes "1 \<le> maxLength"
  shows "(\<exists>cs. chunkText text maxLength = Some cs
            \<and> (\<forall>c\<in>set cs. length (chunk_text c) \<le> maxLength)
            \<and> ((\<forall>x\<in>set text. \<not> isWhiteSpace x) \<longrightarrow>
                 cs = map (\<lambda>k. \<lparr>index = k,
                                   chunk_text = substring text (k * maxLength)
                                                   (k * maxLength + maxLength),
                                   startChar = k * maxLength,
                                   endChar = min (k * maxLength + maxLength) (length text)\<rparr>)
                        [0..<max 1 ((length text + maxLength - 1) div maxLength)]
                 \<and> concat (map chunk_text cs) = text
                 \<and> (\<forall>c\<in>set cs. startChar c = index c * maxLength
                       \<and> chunk_text c = substring text (startChar c) (startChar c + maxLength))))
       \<and> (\<forall>p. p + maxLength < length text \<longrightarrow>
              p < splitPosition text maxLength p \<and> splitPosition text maxLength p \<le> length text)"
proof
  let ?m = maxLength
  let ?n = "length text"
  let ?H = "\<forall>x\<in>set text. \<not> isWhiteSpace x"
  let ?f = "\<lambda>k. \<lparr>index = k, chunk_text = substring text (k * ?m) (k * ?m + ?m),
                   startChar = k * ?m, endChar = min (k * ?m + ?m) ?n\<rparr>"
  let ?N = "max 1 ((?n + ?m - 1) div ?m)"
  let ?B = "\<lambda>cs :: TextChunk list. \<forall>c\<in>set cs. length (chunk_text c) \<le> ?m"
  let ?I = "\<lambda>p i (cs :: TextChunk list). ?B cs
      \<and> (?H \<longrightarrow> p = i * ?m \<and> p < ?n \<and> cs = map ?f [0..<i]
                \<and> concat (map chunk_text cs) = take p text)"
  let ?Q = "\<lambda>cs :: TextChunk list. ?B cs
      \<and> (?H \<longrightarrow> cs = map ?f [0..<?N] \<and> concat (map chunk_text cs) = text)"
  have main: "\<exists>cs. chunkText text ?m = Some cs \<and> ?Q cs"
  proof (cases "text = [] \<or> ?n \<le> ?m")
    case True
    have s: "substring text 0 ?m = text" using True by (auto simp: substring_def)
    have N: "?N = 1"
    proof (cases "text = []")
      case True
      then show ?thesis using assms by simp
    next
      case False
      then have "0 * ?m < ?n" by simp
      moreover have "?n \<le> 0 * ?m + ?m" using True False by simp
      ultimately show ?thesis using ceil_div_unique [OF assms, of 0 ?n] by simp
    qed
    have "map ?f [0..<?N] = [\<lparr>index = 0, chunk_text = text, startChar = 0, endChar = ?n\<rparr>]"
      unfolding N using s True by auto
    with True show ?thesis by (auto simp: chunkText_def)
  next
    case False
    have "\<exists>r. chunkLoop text ?m 0 0 [] = Some r \<and> ?Q r"
    proof (rule chunkLoop_rule [where I = ?I])
      show "1 \<le> ?m" by fact
      show "?I 0 0 []" using False by simp
    next
      fix p i :: nat and cs :: "TextChunk list"
      let ?q = "splitPosition text ?m p"
      let ?t = "trim (substring text p ?q)"
      assume a: "?I p i cs" "p + ?m < ?n"
      have len: "length ?t \<le> ?m" using assms a(2) by (rule splitPosition_chunk_bound)
      have B: "?B (cs @ [\<lparr>index = i, chunk_text = ?t, startChar = p, endChar = ?q\<rparr>])"
        using a(1) len by auto
      let ?c = "\<lparr>index = i, chunk_text = ?t, startChar = p, endChar = ?q\<rparr>"
      have hc: "?H \<longrightarrow> ?q = (i + 1) * ?m \<and> ?q < ?n \<and> cs @ [?c] = map ?f [0..<i + 1]
            \<and> concat (map chunk_text (cs @ [?c])) = take ?q text"
      proof
        assume h: ?H
        have q: "?q = p + ?m" using h by (rule splitPosition_hard_cut)
        have t: "?t = substring text p (p + ?m)"
          unfolding q using h a(2) assms by (intro substring_hard_cut_trim) auto
        from a(1) h have p: "p = i * ?m" "cs = map ?f [0..<i]"
            "concat (map chunk_text cs) = take p text"
          by blast+
        have e: "min (i * ?m + ?m) ?n = i * ?m + ?m" using a(2) p(1) by simp
        have tk: "take (p + ?m) text = take p text @ substring text p (p + ?m)"
          by (rule take_split_substring) simp
        have g1: "?q = (i + 1) * ?m" using q p(1) by (simp add: algebra_simps)
        have g2: "?q < ?n" using q a(2) by simp
        have ceq: "?c = ?f i" using q t p(1) e by simp
        have up: "map ?f [0..<i + 1] = map ?f [0..<i] @ [?f i]" by simp
        have g3: "cs @ [?c] = map ?f [0..<i + 1]"
          unfolding up by (simp only: p(2) [symmetric] ceq [symmetric])
        have g4: "concat (map chunk_text (cs @ [?c])) = take ?q text"
          using p(3) tk q t by simp
        from g1 g2 g3 g4 show "?q = (i + 1) * ?m \<and> ?q < ?n \<and> cs @ [?c] = map ?f [0..<i + 1]
            \<and> concat (map chunk_text (cs @ [?c])) = take ?q text"
          by (intro conjI)
      qed
      from B hc show "?I ?q (i + 1) (cs @ [?c])" by (rule conjI)
    next
      fix p i :: nat and cs :: "TextChunk list"
      let ?q = "splitPosition text ?m p"
      assume a: "?I p i cs" "p + ?m < ?n" "trim (substring text p ?q) = []"
      have "\<not> ?H"
      proof
        assume h: ?H
        have "trim (substring text p (p + ?m)) = substring text p (p + ?m)"
          using h a(2) assms by (intro substring_hard_cut_trim) auto
        moreover have "?q = p + ?m" using h by (rule splitPosition_hard_cut)
        moreover have "substring text p (p + ?m) \<noteq> []"
          using a(2) assms by (simp add: substring_ordered)
        ultimately show False using a(3) by simp
      qed
      then have "?H \<longrightarrow> ?q = i * ?m \<and> ?q < ?n \<and> cs = map ?f [0..<i]
                \<and> concat (map chunk_text cs) = take ?q text"
        by (intro impI) (erule notE)
      moreover from a(1) have "?B cs" by (rule conjunct1)
      ultimately show "?I ?q i cs" by (intro conjI)
    next
      fix p i :: nat and cs :: "TextChunk list"
      let ?c = "\<lparr>index = i, chunk_text = substringFrom text p, startChar = p, endChar = ?n\<rparr>"
      assume a: "?I p i cs" "p < ?n" "?n \<le> p + ?m"
      have "length (substringFrom text p) \<le> ?m" using a by (simp add: substringFrom_def)
      then have B: "?B (cs @ [?c])" using a(1) by auto
      have hc: "?H \<longrightarrow> cs @ [?c] = map ?f [0..<?N] \<and> concat (map chunk_text (cs @ [?c])) = text"
      proof
        assume h: ?H
        from a(1) h have p: "p = i * ?m" "cs = map ?f [0..<i]"
            "concat (map chunk_text cs) = take p text"
          by blast+
        have N: "?N = i + 1" using ceil_div_unique [OF assms, of i ?n] a(2,3) p(1) by simp
        have s: "substringFrom text p = substring text (i * ?m) (i * ?m + ?m)"
          using a(3) p(1) by (simp add: substringFrom_def substring_ordered)
        have e: "min (i * ?m + ?m) ?n = ?n" using a(3) p(1) by simp
        have ceq: "?c = ?f i" using s e p(1) by simp
        have up: "map ?f [0..<i + 1] = map ?f [0..<i] @ [?f i]" by simp
        have "cs @ [?c] = map ?f [0..<i + 1]"
          unfolding up by (simp only: p(2) [symmetric] ceq [symmetric])
        then have c1: "cs @ [?c] = map ?f [0..<?N]" by (simp only: N)
        have c2: "concat (map chunk_text (cs @ [?c])) = text"
          using p(3) by (simp add: substringFrom_def)
        from c1 c2 show "cs @ [?c] = map ?f [0..<?N] \<and> concat (map chunk_text (cs @ [?c])) = text"
          by (rule conjI)
      qed
      from B hc show "?Q (cs @ [?c])" by (rule conjI)
    next
      fix p i :: nat and cs :: "TextChunk list"
      assume a: "?I p i cs" "?n \<le> p"
      have "\<not> ?H"
      proof
        assume ?H
        with a(1) have "p < ?n" by blast
        with a(2) show False by simp
      qed
      then have "?H \<longrightarrow> cs = map ?f [0..<?N] \<and> concat (map chunk_text cs) = text"
        by (intro impI) (erule notE)
      moreover from a(1) have "?B cs" by (rule conjunct1)
      ultimately show "?Q cs" by (intro conjI)
    qed
    with False show ?thesis by (simp add: chunkText_def)
  qed
  then obtain cs where cs: "chunkText text ?m = Some cs" "?B cs"
      and hq: "?H \<longrightarrow> cs = map ?f [0..<?N] \<and> concat (map chunk_text cs) = text"
    by (elim exE conjE)
  have "?H \<longrightarrow> cs = map ?f [0..<?N] \<and> concat (map chunk_text cs) = text
            \<and> (\<forall>c\<in>set cs. startChar c = index c * ?m
                  \<and> chunk_text c = substring text (startChar c) (startChar c + ?m))"
  proof
    assume h: ?H
    from hq h have ec: "cs = map ?f [0..<?N] \<and> concat (map chunk_text cs) = text"
      by (rule mp)
    from ec have e: "cs = map ?f [0..<?N]" by (rule conjunct1)
    from ec have c: "concat (map chunk_text cs) = text" by (rule conjunct2)
    have "\<forall>c\<in>set (map ?f [0..<?N]). startChar c = index c * ?m
                  \<and> chunk_text c = substring text (startChar c) (startChar c + ?m)"
      by simp
    then have "\<forall>c\<in>set cs. startChar c = index c * ?m
                  \<and> chunk_text c = substring text (startChar c) (startChar c + ?m)"
      by (simp only: e [symmetric])
    with e c show "cs = map ?f [0..<?N] \<and> concat (map chunk_text cs) = text
            \<and> (\<forall>c\<in>set cs. startChar c = index c * ?m
                  \<and> chunk_text c = substring text (startChar c) (startChar c + ?m))"
      by (intro conjI)
  qed
  with cs show "\<exists>cs. chunkText text ?m = Some cs \<and> ?B cs
      \<and> (?H \<longrightarrow> cs = map ?f [0..<?N] \<and> concat (map chunk_text cs) = text
            \<and> (\<forall>c\<in>set cs. startChar c = index c * ?m
                  \<and> chunk_text c = substring text (startChar c) (startChar c + ?m)))"
    by (intro exI [of _ cs] conjI)
next
  show "\<forall>p. p + maxLength < length text \<longrightarrow>
              p < splitPosition text maxLength p \<and> splitPosition text maxLength p \<le> length text"
    using assms splitPosition_advances splitPosition_inside by blast
qed

theorem chunkText_terminates_witness:
  "(1::nat) \<le> 4 \<and> list_all (\<lambda>x. \<not> isWhiteSpace x) (utf16 ''abcdefghij'')
     \<and> chunkText (utf16 ''abcdefghij'') 4 =
         Some [\<lparr>index = 0, chunk_text = utf16 ''abcd'', startChar = 0, endChar = 4\<rparr>,
               \<lparr>index = 1, chunk_text = utf16 ''efgh'', startChar = 4, endChar = 8\<rparr>,
               \<lparr>index = 2, chunk_text = utf16 ''ij'', startChar = 8, endChar = 10\<rparr>]
     \<and> 0 < splitPosition (utf16 ''abcdefghij'') 4 0
     \<and> splitPosition (utf16 ''abcdefghij'') 4 0 \<le> length (utf16 ''abcdefghij'')"
proof -
  let ?w = "utf16 ''abcdefghij''"
  have 1: "(1::nat) \<le> 4" by simp
  have 2: "(0::nat) + 4 < length ?w" by (simp add: utf16_def)
  have 3: "list_all (\<lambda>x. \<not> isWhiteSpace x) ?w"
    by (simp add: utf16_def isWhiteSpace_def)
  then have 4: "\<forall>x\<in>set ?w. \<not> isWhiteSpace x"
    by (simp only: list_all_iff)
  have 5: "map (\<lambda>k. \<lparr>index = k, chunk_text = substring ?w (k * 4) (k * 4 + 4),
                        startChar = k * 4, endChar = min (k * 4 + 4) (length ?w)\<rparr>)
             [0..<max 1 ((length ?w + 4 - 1) div 4)]
      = [\<lparr>index = 0, chunk_text = utf16 ''abcd'', startChar = 0, endChar = 4\<rparr>,
         \<lparr>index = 1, chunk_text = utf16 ''efgh'', startChar = 4, endChar = 8\<rparr>,
         \<lparr>index = 2, chunk_text = utf16 ''ij'', startChar = 8, endChar = 10\<rparr>]"
    by code_simp
  from chunkText_terminates [OF 1, of ?w] 4 obtain cs
    where cs: "chunkText ?w 4 = Some cs"
      "cs = map (\<lambda>k. \<lparr>index = k, chunk_text = substring ?w (k * 4) (k * 4 + 4),
                        startChar = k * 4, endChar = min (k * 4 + 4) (length ?w)\<rparr>)
             [0..<max 1 ((length ?w + 4 - 1) div 4)]"
      and adv: "\<forall>p. p + 4 < length ?w \<longrightarrow>
              p < splitPosition ?w 4 p \<and> splitPosition ?w 4 p \<le> length ?w"
    by blast
  from adv 2 have 6: "0 < splitPosition ?w 4 0 \<and> splitPosition ?w 4 0 \<le> length ?w"
    by blast
  from cs have 7: "chunkText ?w 4 =
         Some [\<lparr>index = 0, chunk_text = utf16 ''abcd'', startChar = 0, endChar = 4\<rparr>,
               \<lparr>index = 1, chunk_text = utf16 ''efgh'', startChar = 4, endChar = 8\<rparr>,
               \<lparr>index = 2, chunk_text = utf16 ''ij'', startChar = 8, endChar = 10\<rparr>]"
    by (simp only: 5)
  from 1 3 6 7 show ?thesis by (intro conjI) (simp_all only: simp_thms)
qed

text \<open>
  C4, as the claim states it, fails: the early return emits the whole input untrimmed,
  so the empty text gives one chunk with empty text; and the remainder chunk of line 170
  is not trimmed either, so a text that ends in white space can give a blank last chunk.
\<close>

theorem chunkText_empty_chunk_counterexample:
  "chunkText [] 1 = Some [\<lparr>index = 0, chunk_text = [], startChar = 0, endChar = 0\<rparr>]
   \<and> trim (chunk_text \<lparr>index = 0, chunk_text = [], startChar = 0, endChar = 0\<rparr>) = []
   \<and> chunkText (utf16 ''aa.  '') 4 =
       Some [\<lparr>index = 0, chunk_text = utf16 ''aa.'', startChar = 0, endChar = 4\<rparr>,
             \<lparr>index = 1, chunk_text = utf16 '' '', startChar = 4, endChar = 5\<rparr>]
   \<and> trim (utf16 '' '') = []"
  by code_simp

text \<open>
  C4, amended. For \<open>maxLength \<ge> 1\<close> the indices of the emitted chunks are
  \<open>0, 1, ..., N - 1\<close> (a dropped candidate consumes no index), every chunk but the last
  has a non-empty text that is already trimmed, and when the text is non-empty and does
  not end in white space (the callers pass \<open>text.trim()\<close>, and only when it is
  non-empty) every emitted chunk has a non-empty trimmed text.
\<close>

theorem chunkText_chunks_nonempty:
  assumes "1 \<le> maxLength"
  shows "\<exists>cs. chunkText text maxLength = Some cs
           \<and> map index cs = [0..<length cs]
           \<and> (\<forall>c\<in>set (butlast cs). chunk_text c \<noteq> [] \<and> trim (chunk_text c) = chunk_text c)
           \<and> (text \<noteq> [] \<and> \<not> isWhiteSpace (last text) \<longrightarrow>
                (\<forall>c\<in>set cs. trim (chunk_text c) \<noteq> []))"
proof -
  let ?H = "text \<noteq> [] \<and> \<not> isWhiteSpace (last text)"
  let ?ok = "\<lambda>c :: TextChunk. chunk_text c \<noteq> [] \<and> trim (chunk_text c) = chunk_text c"
  let ?I = "\<lambda>(p :: nat) i (cs :: TextChunk list).
              i = length cs \<and> map index cs = [0..<length cs] \<and> (\<forall>c\<in>set cs. ?ok c)"
  let ?Q = "\<lambda>cs :: TextChunk list. map index cs = [0..<length cs]
              \<and> (\<forall>c\<in>set (butlast cs). ?ok c)
              \<and> (?H \<longrightarrow> (\<forall>c\<in>set cs. trim (chunk_text c) \<noteq> []))"
  show ?thesis
  proof (cases "text = [] \<or> length text \<le> maxLength")
    case True
    have "?H \<longrightarrow> trim text \<noteq> []" using trim_last_nonws by blast
    with True show ?thesis by (auto simp: chunkText_def)
  next
    case False
    have "\<exists>r. chunkLoop text maxLength 0 0 [] = Some r \<and> ?Q r"
    proof (rule chunkLoop_rule [where I = ?I])
      show "1 \<le> maxLength" by fact
      show "?I 0 0 []" by simp
    next
      fix p i :: nat and cs :: "TextChunk list"
      let ?q = "splitPosition text maxLength p"
      let ?t = "trim (substring text p ?q)"
      assume a: "?I p i cs" "?t \<noteq> []"
      have "trim ?t = ?t" by (rule trim_trim)
      with a show "?I ?q (i + 1) (cs @ [\<lparr>index = i, chunk_text = ?t, startChar = p, endChar = ?q\<rparr>])"
        by auto
    next
      fix p i :: nat and cs :: "TextChunk list"
      assume a: "?I p i cs" "p < length text"
      let ?f = "\<lparr>index = i, chunk_text = substringFrom text p, startChar = p,
                  endChar = length text\<rparr>"
      have ne: "substringFrom text p \<noteq> []" using a(2) by (simp add: substringFrom_def)
      have "last (substringFrom text p) = last text"
        using a(2) by (simp add: substringFrom_def)
      then have "?H \<longrightarrow> trim (substringFrom text p) \<noteq> []"
        using ne trim_last_nonws by metis
      moreover have "\<forall>c\<in>set cs. trim (chunk_text c) \<noteq> []" using a(1) by auto
      ultimately show "?Q (cs @ [?f])" using a(1) by auto
    next
      fix p i :: nat and cs :: "TextChunk list"
      assume a: "?I p i cs"
      then have "\<forall>c\<in>set (butlast cs). ?ok c" by (meson in_set_butlastD)
      moreover have "\<forall>c\<in>set cs. trim (chunk_text c) \<noteq> []" using a by auto
      ultimately show "?Q cs" using a by simp
    qed
    with False show ?thesis by (simp add: chunkText_def)
  qed
qed

theorem chunkText_chunks_nonempty_witness:
  "(1::nat) \<le> 4 \<and> utf16 ''ab.  cd ef'' \<noteq> [] \<and> \<not> isWhiteSpace (last (utf16 ''ab.  cd ef''))
     \<and> (\<exists>cs. chunkText (utf16 ''ab.  cd ef'') 4 = Some cs
           \<and> map index cs = [0..<length cs]
           \<and> list_all (\<lambda>c. trim (chunk_text c) \<noteq> []) cs)"
proof -
  have 1: "(1::nat) \<le> 4" by simp
  have 2: "utf16 ''ab.  cd ef'' \<noteq> []" by (simp add: utf16_def)
  have 3: "\<not> isWhiteSpace (last (utf16 ''ab.  cd ef''))"
    by (simp add: utf16_def isWhiteSpace_def)
  from chunkText_chunks_nonempty [OF 1, of "utf16 ''ab.  cd ef''"] 1 2 3 show ?thesis
    unfolding list_all_iff by blast
qed

text \<open>
  C5. For the text "Hello world. This is a test. Another sentence here." and
  \<open>maxLength = 25\<close> the first split position is 13, right after "Hello world. ", and
  the chunks are the three sentences: no split falls inside a sentence.
\<close>

theorem chunkText_boundary_preference:
  "splitPosition (utf16 ''Hello world. This is a test. Another sentence here.'') 25 0
     = length (utf16 ''Hello world. '')
   \<and> chunkText (utf16 ''Hello world. This is a test. Another sentence here.'') 25 =
     Some [\<lparr>index = 0, chunk_text = utf16 ''Hello world.'', startChar = 0, endChar = 13\<rparr>,
           \<lparr>index = 1, chunk_text = utf16 ''This is a test.'', startChar = 13, endChar = 29\<rparr>,
           \<lparr>index = 2, chunk_text = utf16 ''Another sentence here.'', startChar = 29,
              endChar = 51\<rparr>]"
  by code_simp

section \<open>Coverage of the input\<close>

lemma weave_append:
  "length gs = length ts \<Longrightarrow> weave (gs @ gs') (ts @ ts') = weave gs ts @ weave gs' ts'"
  by (induction gs ts rule: list_induct2) auto

lemma filter_weave:
  "\<forall>g\<in>set gs. \<forall>x\<in>set g. isWhiteSpace x \<Longrightarrow>
     filter (\<lambda>x. \<not> isWhiteSpace x) (weave gs ts) = concat (map (filter (\<lambda>x. \<not> isWhiteSpace x)) ts)"
proof (induction gs ts rule: weave.induct)
  case (1 g gs t ts)
  then show ?case by (simp add: filter_empty_conv)
next
  case (2 gs)
  then show ?case by (induction gs) (auto simp: filter_empty_conv)
next
  case (3 t ts)
  then show ?case by (simp add: filter_concat)
qed


lemma chunkLoop_reconstructs:
  assumes m: "1 \<le> maxLength"
  shows "\<exists>cs. chunkLoop text maxLength 0 0 [] = Some cs
           \<and> (\<exists>gaps. length gaps = length cs + 1
                 \<and> (\<forall>g\<in>set gaps. \<forall>x\<in>set g. isWhiteSpace x)
                 \<and> weave gaps (map chunk_text cs) = text)
           \<and> (\<forall>c\<in>set cs. startChar c \<le> endChar c \<and> endChar c \<le> length text
                 \<and> (chunk_text c = substring text (startChar c) (endChar c)
                    \<or> chunk_text c = trim (substring text (startChar c) (endChar c))))
           \<and> sorted_wrt (\<lambda>a b. endChar a \<le> startChar b) cs"
proof -
  define reg where "reg = (\<lambda>c :: TextChunk. startChar c \<le> endChar c \<and> endChar c \<le> length text
             \<and> (chunk_text c = substring text (startChar c) (endChar c)
                \<or> chunk_text c = trim (substring text (startChar c) (endChar c))))"
  let ?ws = "\<lambda>g :: jsString. \<forall>x\<in>set g. isWhiteSpace x"
  let ?ord = "\<lambda>a b :: TextChunk. endChar a \<le> startChar b"
  let ?I = "\<lambda>(p :: nat) (i :: nat) (cs :: TextChunk list). p \<le> length text
      \<and> (\<exists>gaps pend. length gaps = length cs \<and> (\<forall>g\<in>set gaps. ?ws g) \<and> ?ws pend
            \<and> take p text = weave gaps (map chunk_text cs) @ pend)
      \<and> (\<forall>c\<in>set cs. reg c \<and> endChar c \<le> p)
      \<and> sorted_wrt ?ord cs"
  let ?Q = "\<lambda>cs :: TextChunk list.
      (\<exists>gaps. length gaps = length cs + 1 \<and> (\<forall>g\<in>set gaps. ?ws g)
            \<and> weave gaps (map chunk_text cs) = text)
      \<and> (\<forall>c\<in>set cs. reg c) \<and> sorted_wrt ?ord cs"
  have "\<exists>cs. chunkLoop text maxLength 0 0 [] = Some cs \<and> ?Q cs"
  proof (rule chunkLoop_rule [where I = ?I and Q = ?Q])
    show "1 \<le> maxLength" by fact
    have "length ([] :: jsString list) = length ([] :: TextChunk list) \<and> (\<forall>g\<in>set ([] :: jsString list). ?ws g) \<and> ?ws []
            \<and> take 0 text = weave [] (map chunk_text []) @ []"
      by simp
    then show "?I 0 0 []" by fastforce
  next
    fix p i :: nat and cs :: "TextChunk list"
    let ?q = "splitPosition text maxLength p"
    let ?r = "substring text p ?q"
    let ?c = "\<lparr>index = i, chunk_text = trim ?r, startChar = p, endChar = ?q\<rparr>"
    assume a: "?I p i cs" "p + maxLength < length text"
    have adv: "p < ?q" using m by (rule splitPosition_advances)
    have ins: "?q \<le> length text" using m a(2) by (rule splitPosition_inside)
    from a(1) obtain gaps pend where g: "length gaps = length cs" "\<forall>g\<in>set gaps. ?ws g"
        "?ws pend" "take p text = weave gaps (map chunk_text cs) @ pend"
      by blast
    obtain l r where lr: "?r = l @ trim ?r @ r" "?ws l" "?ws r"
      using trim_decomp by blast
    have "take ?q text = take p text @ ?r" using adv by (intro take_split_substring) simp
    also have "\<dots> = weave gaps (map chunk_text cs) @ (pend @ l) @ trim ?r @ r"
      using g(4) lr(1) by (metis append.assoc)
    also have "\<dots> = weave (gaps @ [pend @ l]) (map chunk_text (cs @ [?c])) @ r"
      using g(1) by (simp add: weave_append)
    finally have tk: "take ?q text = weave (gaps @ [pend @ l]) (map chunk_text (cs @ [?c])) @ r" .
    have "length (gaps @ [pend @ l]) = length (cs @ [?c])" using g(1) by simp
    moreover have "\<forall>g\<in>set (gaps @ [pend @ l]). ?ws g" using g(2,3) lr(2) by auto
    ultimately have ex: "\<exists>gaps' pend'. length gaps' = length (cs @ [?c]) \<and> (\<forall>g\<in>set gaps'. ?ws g)
        \<and> ?ws pend' \<and> take ?q text = weave gaps' (map chunk_text (cs @ [?c])) @ pend'"
      using tk lr(3) by blast
    have rc: "reg ?c" using adv ins by (simp add: reg_def)
    have old: "\<forall>c\<in>set cs. reg c \<and> endChar c \<le> ?q" using a(1) adv by auto
    have srt: "sorted_wrt ?ord (cs @ [?c])" using a(1) by (auto simp: sorted_wrt_append)
    show "?I ?q (i + 1) (cs @ [?c])" using ins ex rc old srt by auto
  next
    fix p i :: nat and cs :: "TextChunk list"
    let ?q = "splitPosition text maxLength p"
    let ?r = "substring text p ?q"
    assume a: "?I p i cs" "p + maxLength < length text" "trim ?r = []"
    have adv: "p < ?q" using m by (rule splitPosition_advances)
    have ins: "?q \<le> length text" using m a(2) by (rule splitPosition_inside)
    from a(1) obtain gaps pend where g: "length gaps = length cs" "\<forall>g\<in>set gaps. ?ws g"
        "?ws pend" "take p text = weave gaps (map chunk_text cs) @ pend"
      by blast
    have r: "?ws ?r" using a(3) by (simp add: trim_empty_iff)
    have "take ?q text = take p text @ ?r" using adv by (intro take_split_substring) simp
    then have "take ?q text = weave gaps (map chunk_text cs) @ (pend @ ?r)"
      using g(4) by simp
    moreover have "?ws (pend @ ?r)" using g(3) r by auto
    ultimately have ex: "\<exists>gaps' pend'. length gaps' = length cs \<and> (\<forall>g\<in>set gaps'. ?ws g)
        \<and> ?ws pend' \<and> take ?q text = weave gaps' (map chunk_text cs) @ pend'"
      using g(1,2) by blast
    have old: "\<forall>c\<in>set cs. reg c \<and> endChar c \<le> ?q" using a(1) adv by auto
    show "?I ?q i cs" using ins ex old a(1) by auto
  next
    fix p i :: nat and cs :: "TextChunk list"
    let ?c = "\<lparr>index = i, chunk_text = substringFrom text p, startChar = p,
                endChar = length text\<rparr>"
    assume a: "?I p i cs" "p < length text"
    from a(1) obtain gaps pend where g: "length gaps = length cs" "\<forall>g\<in>set gaps. ?ws g"
        "?ws pend" "take p text = weave gaps (map chunk_text cs) @ pend"
      by blast
    have "text = take p text @ drop p text" by simp
    also have "\<dots> = weave gaps (map chunk_text cs) @ pend @ substringFrom text p"
      using g(4) by (simp add: substringFrom_def)
    also have "\<dots> = weave (gaps @ [pend, []]) (map chunk_text (cs @ [?c]))"
      using g(1) by (simp add: weave_append)
    finally have "weave (gaps @ [pend, []]) (map chunk_text (cs @ [?c])) = text" by simp
    moreover have "length (gaps @ [pend, []]) = length (cs @ [?c]) + 1" using g(1) by simp
    moreover have "\<forall>g\<in>set (gaps @ [pend, []]). ?ws g" using g(2,3) by auto
    ultimately have ex: "\<exists>gaps'. length gaps' = length (cs @ [?c]) + 1 \<and> (\<forall>g\<in>set gaps'. ?ws g)
        \<and> weave gaps' (map chunk_text (cs @ [?c])) = text"
      by blast
    have "substringFrom text p = substring text p (length text)"
      using a(2) by (simp add: substringFrom_def substring_ordered)
    then have rc: "reg ?c" using a(2) by (simp add: reg_def)
    have srt: "sorted_wrt ?ord (cs @ [?c])" using a(1) by (auto simp: sorted_wrt_append)
    show "?Q (cs @ [?c])" using ex rc srt a(1) by auto
  next
    fix p i :: nat and cs :: "TextChunk list"
    assume a: "?I p i cs" "length text \<le> p"
    from a(1) obtain gaps pend where g: "length gaps = length cs" "\<forall>g\<in>set gaps. ?ws g"
        "?ws pend" "take p text = weave gaps (map chunk_text cs) @ pend"
      by blast
    have "text = weave gaps (map chunk_text cs) @ pend" using g(4) a(2) by simp
    also have "\<dots> = weave (gaps @ [pend]) (map chunk_text cs @ [])"
      using g(1) by (subst weave_append) simp_all
    finally have "weave (gaps @ [pend]) (map chunk_text cs) = text" by simp
    moreover have "length (gaps @ [pend]) = length cs + 1" using g(1) by simp
    moreover have "\<forall>g\<in>set (gaps @ [pend]). ?ws g" using g(2,3) by auto
    ultimately have "\<exists>gaps'. length gaps' = length cs + 1 \<and> (\<forall>g\<in>set gaps'. ?ws g)
        \<and> weave gaps' (map chunk_text cs) = text"
      by blast
    then show "?Q cs" using a(1) by auto
  qed
  then show ?thesis unfolding reg_def by simp
qed

text \<open>
  C2. For every text and every \<open>maxLength \<ge> 1\<close> the chunks, in index order, give
  the text back once the trimmed white space is put between them: there are gaps of
  white space only, one before, between and after the chunks, whose interleaving with
  the chunk texts is the text. So the characters that are not white space are those of the
  text, in order, none lost and none twice. Every chunk text is the slice
  \<open>[startChar, endChar)\<close> of the text, trimmed or as it is, and the slices follow each
  other without overlap.
\<close>

theorem chunkText_reconstructs:
  assumes "1 \<le> maxLength"
  shows "\<exists>cs. chunkText text maxLength = Some cs
           \<and> (\<exists>gaps. length gaps = length cs + 1
                 \<and> (\<forall>g\<in>set gaps. \<forall>x\<in>set g. isWhiteSpace x)
                 \<and> weave gaps (map chunk_text cs) = text)
           \<and> concat (map (\<lambda>c. filter (\<lambda>x. \<not> isWhiteSpace x) (chunk_text c)) cs)
               = filter (\<lambda>x. \<not> isWhiteSpace x) text
           \<and> (\<forall>c\<in>set cs. startChar c \<le> endChar c \<and> endChar c \<le> length text
                 \<and> (chunk_text c = substring text (startChar c) (endChar c)
                    \<or> chunk_text c = trim (substring text (startChar c) (endChar c))))
           \<and> sorted_wrt (\<lambda>a b. endChar a \<le> startChar b) cs"
proof -
  let ?reg = "\<lambda>c :: TextChunk. startChar c \<le> endChar c \<and> endChar c \<le> length text
             \<and> (chunk_text c = substring text (startChar c) (endChar c)
                \<or> chunk_text c = trim (substring text (startChar c) (endChar c)))"
  have "\<exists>cs. chunkText text maxLength = Some cs
           \<and> (\<exists>gaps. length gaps = length cs + 1
                 \<and> (\<forall>g\<in>set gaps. \<forall>x\<in>set g. isWhiteSpace x)
                 \<and> weave gaps (map chunk_text cs) = text)
           \<and> (\<forall>c\<in>set cs. ?reg c)
           \<and> sorted_wrt (\<lambda>a b. endChar a \<le> startChar b) cs"
  proof (cases "text = [] \<or> length text \<le> maxLength")
    case True
    let ?c = "\<lparr>index = 0, chunk_text = text, startChar = 0, endChar = length text\<rparr>"
    have "length [[], [] :: jsString] = length [?c] + 1
         \<and> (\<forall>g\<in>set [[], [] :: jsString]. \<forall>x\<in>set g. isWhiteSpace x)
         \<and> weave [[], []] (map chunk_text [?c]) = text"
      by simp
    then have "\<exists>gaps. length gaps = length [?c] + 1
                 \<and> (\<forall>g\<in>set gaps. \<forall>x\<in>set g. isWhiteSpace x)
                 \<and> weave gaps (map chunk_text [?c]) = text"
      by blast
    moreover have "substring text 0 (length text) = text" by (simp add: substring_def)
    ultimately show ?thesis using True by (simp add: chunkText_def)
  next
    case False
    then show ?thesis using chunkLoop_reconstructs [OF assms, of "text"]
      by (simp add: chunkText_def)
  qed
  then obtain cs gaps where r: "chunkText text maxLength = Some cs"
      "length gaps = length cs + 1" "\<forall>g\<in>set gaps. \<forall>x\<in>set g. isWhiteSpace x"
      "weave gaps (map chunk_text cs) = text" "\<forall>c\<in>set cs. ?reg c"
      "sorted_wrt (\<lambda>a b. endChar a \<le> startChar b) cs"
    by blast
  have "filter (\<lambda>x. \<not> isWhiteSpace x) (weave gaps (map chunk_text cs))
      = concat (map (filter (\<lambda>x. \<not> isWhiteSpace x)) (map chunk_text cs))"
    using r(3) by (rule filter_weave)
  then have "concat (map (\<lambda>c. filter (\<lambda>x. \<not> isWhiteSpace x) (chunk_text c)) cs)
      = filter (\<lambda>x. \<not> isWhiteSpace x) text"
    using r(4) by (simp add: comp_def)
  with r show ?thesis by blast
qed

theorem chunkText_reconstructs_witness:
  "(1::nat) \<le> 4 \<and> (\<exists>cs. chunkText (utf16 ''ab.  cd ef'') 4 = Some cs
      \<and> (\<exists>gaps. length gaps = length cs + 1 \<and> list_all (list_all isWhiteSpace) gaps
            \<and> weave gaps (map chunk_text cs) = utf16 ''ab.  cd ef'')
      \<and> concat (map (\<lambda>c. filter (\<lambda>x. \<not> isWhiteSpace x) (chunk_text c)) cs)
               = filter (\<lambda>x. \<not> isWhiteSpace x) (utf16 ''ab.  cd ef''))"
proof -
  have 1: "(1::nat) \<le> 4" by simp
  from chunkText_reconstructs [OF 1, of "utf16 ''ab.  cd ef''"] 1 show ?thesis
    unfolding list_all_iff by blast
qed

section \<open>Properties of the batch route\<close>

lemma collect_Inr:
  "collect acc (c, st) = Inr acc' \<Longrightarrow> fst acc' = fst acc @ [settledResult c st]"
  by (cases st) (auto simp: collect_def settledResult_def split: if_splits)


lemma collectAll_Inr:
  "collectAll acc (zip cs (map f cs)) = Inr acc' \<Longrightarrow>
     fst acc' = fst acc @ map (\<lambda>c. settledResult c (f c)) cs"
proof (induction cs arbitrary: acc)
  case Nil
  then show ?case by simp
next
  case (Cons c cs)
  from Cons.prems obtain acc1 where 1: "collect acc (c, f c) = Inr acc1"
      and 2: "collectAll acc1 (zip cs (map f cs)) = Inr acc'"
    by (auto split: sum.splits)
  from collect_Inr [OF 1] Cons.IH [OF 2] show ?case by simp
qed






lemma settledResult_generateChunk:
  assumes "c \<noteq> JNull"
  shows "r_chunkIndex (settledResult c (generateChunk gen body c)) = getProp c ''index''
   \<and> (if textReadable c then
        (case gen (singleRequest body c) of
           GenOk u d n \<Rightarrow> r_success (settledResult c (generateChunk gen body c))
               \<and> r_audioUrl (settledResult c (generateChunk gen body c)) = u
               \<and> r_duration (settledResult c (generateChunk gen body c)) = d
               \<and> r_filename (settledResult c (generateChunk gen body c)) = n
               \<and> r_error (settledResult c (generateChunk gen body c)) = None
         | _ \<Rightarrow> \<not> r_success (settledResult c (generateChunk gen body c))
               \<and> r_error (settledResult c (generateChunk gen body c)) \<noteq> None)
      else \<not> r_success (settledResult c (generateChunk gen body c))
           \<and> r_error (settledResult c (generateChunk gen body c)) \<noteq> None)"
  using assms
  by (cases "gen (singleRequest body c)")
     (simp_all add: settledResult_def generateChunk_def failedResult_def)

lemma length_filter_partition:
  "length (filter P xs) + length (filter (\<lambda>x. \<not> P x) xs) = length xs"
  by (induction xs) auto




section \<open>Properties of the export\<close>

lemma zip_entries_from:
  "e \<in> set (foldl (\<lambda>z chunk. case fetchBlob (a_audioUrl chunk) of
                      Some audioBlob \<Rightarrow> zipFile z (zipName chunk) audioBlob | None \<Rightarrow> z) z0 xs)
   \<Longrightarrow> e \<in> set z0 \<or> (\<exists>c\<in>set xs. fst e = zipName c \<and> fetchBlob (a_audioUrl c) = Some (snd e))"
proof (induction xs arbitrary: z0)
  case Nil
  then show ?case by simp
next
  case (Cons x xs)
  let ?z1 = "case fetchBlob (a_audioUrl x) of
               Some audioBlob \<Rightarrow> zipFile z0 (zipName x) audioBlob | None \<Rightarrow> z0"
  from Cons.prems have "e \<in> set (foldl (\<lambda>z chunk. case fetchBlob (a_audioUrl chunk) of
                      Some audioBlob \<Rightarrow> zipFile z (zipName chunk) audioBlob | None \<Rightarrow> z) ?z1 xs)"
    by simp
  from Cons.IH [OF this] show ?case
  proof
    assume "e \<in> set ?z1"
    then show ?thesis by (auto simp: zipFile_def split: option.splits)
  next
    assume "\<exists>c\<in>set xs. fst e = zipName c \<and> fetchBlob (a_audioUrl c) = Some (snd e)"
    then show ?thesis by auto
  qed
qed

text \<open>
  C9. With no completed chunk the export reports the error "No completed audio chunks
  to download" and hands no archive to \<open>saveAs\<close> (\<open>None\<close>, not an empty archive). With
  a completed chunk it reports success, and every entry of the archive is the audio of a
  completed chunk: pending, generating and failed chunks are left out without an error,
  the archive being the same as if they were not in the state.
\<close>

theorem export_needs_completed_chunk:
  "(filter (\<lambda>chunk. a_status chunk = Completed) (audioChunks s) = [] \<longrightarrow>
      handleDownloadAllAsZip fetchBlob zipError s = (showMessage NoCompleted MsgError s, None))
   \<and> (filter (\<lambda>chunk. a_status chunk = Completed) (audioChunks s) \<noteq> [] \<longrightarrow>
      (\<exists>s' jszip. handleDownloadAllAsZip fetchBlob None s = (s', Some jszip)
         \<and> messageType s' = MsgSuccess
         \<and> message s' = Downloaded (length (filter (\<lambda>chunk. a_status chunk = Completed) (audioChunks s)))
         \<and> (\<forall>e\<in>set jszip. \<exists>c\<in>set (audioChunks s). a_status c = Completed
                \<and> fst e = zipName c \<and> fetchBlob (a_audioUrl c) = Some (snd e))))
   \<and> snd (handleDownloadAllAsZip fetchBlob zipError s)
       = snd (handleDownloadAllAsZip fetchBlob zipError
               (s\<lparr>audioChunks := filter (\<lambda>chunk. a_status chunk = Completed) (audioChunks s)\<rparr>))"
proof (intro conjI impI)
  assume "filter (\<lambda>chunk. a_status chunk = Completed) (audioChunks s) = []"
  then show "handleDownloadAllAsZip fetchBlob zipError s = (showMessage NoCompleted MsgError s, None)"
    by (simp add: handleDownloadAllAsZip_def)
next
  let ?completed = "filter (\<lambda>chunk. a_status chunk = Completed) (audioChunks s)"
  let ?jszip = "foldl (\<lambda>z chunk. case fetchBlob (a_audioUrl chunk) of
                      Some audioBlob \<Rightarrow> zipFile z (zipName chunk) audioBlob | None \<Rightarrow> z) [] ?completed"
  assume ne: "?completed \<noteq> []"
  then have eq: "handleDownloadAllAsZip fetchBlob None s =
      (showMessage (Downloaded (length ?completed)) MsgSuccess (showMessage CreatingZip MsgInfo s),
       Some ?jszip)"
    by (simp add: handleDownloadAllAsZip_def Let_def)
  have "\<forall>e\<in>set ?jszip. \<exists>c\<in>set (audioChunks s). a_status c = Completed
                \<and> fst e = zipName c \<and> fetchBlob (a_audioUrl c) = Some (snd e)"
  proof
    fix e assume "e \<in> set ?jszip"
    from zip_entries_from [OF this] show "\<exists>c\<in>set (audioChunks s). a_status c = Completed
                \<and> fst e = zipName c \<and> fetchBlob (a_audioUrl c) = Some (snd e)"
      by auto
  qed
  with eq show "\<exists>s' jszip. handleDownloadAllAsZip fetchBlob None s = (s', Some jszip)
         \<and> messageType s' = MsgSuccess
         \<and> message s' = Downloaded (length ?completed)
         \<and> (\<forall>e\<in>set jszip. \<exists>c\<in>set (audioChunks s). a_status c = Completed
                \<and> fst e = zipName c \<and> fetchBlob (a_audioUrl c) = Some (snd e))"
    by (simp add: showMessage_def)
next
  show "snd (handleDownloadAllAsZip fetchBlob zipError s)
       = snd (handleDownloadAllAsZip fetchBlob zipError
               (s\<lparr>audioChunks := filter (\<lambda>chunk. a_status chunk = Completed) (audioChunks s)\<rparr>))"
    by (simp add: handleDownloadAllAsZip_def Let_def split: option.splits)
qed

theorem export_needs_completed_chunk_witness:
  "filter (\<lambda>chunk. a_status chunk = Completed) (audioChunks (sampleJobs [Failed, Pending])) = []
   \<and> handleDownloadAllAsZip Some None (sampleJobs [Failed, Pending])
       = (showMessage NoCompleted MsgError (sampleJobs [Failed, Pending]), None)
   \<and> filter (\<lambda>chunk. a_status chunk = Completed)
        (audioChunks (sampleJobs [Failed, Completed, Generating, Pending])) \<noteq> []
   \<and> (\<exists>s'. handleDownloadAllAsZip Some None (sampleJobs [Failed, Completed, Generating, Pending])
              = (s', Some [(''002_f.mp3'', ''blob:1'')])
          \<and> messageType s' = MsgSuccess \<and> message s' = Downloaded 1)"
proof -
  let ?s0 = "sampleJobs [Failed, Pending]"
  let ?s1 = "sampleJobs [Failed, Completed, Generating, Pending]"
  have 1: "filter (\<lambda>chunk. a_status chunk = Completed) (audioChunks ?s0) = []" by code_simp
  have 2: "filter (\<lambda>chunk. a_status chunk = Completed) (audioChunks ?s1) \<noteq> []" by code_simp
  have 3: "length (filter (\<lambda>chunk. a_status chunk = Completed) (audioChunks ?s1)) = 1"
    by code_simp
  have 4: "snd (handleDownloadAllAsZip Some None ?s1) = Some [(''002_f.mp3'', ''blob:1'')]"
    by code_simp
  from export_needs_completed_chunk [of ?s0 Some None] 1
  have a: "handleDownloadAllAsZip Some None ?s0 = (showMessage NoCompleted MsgError ?s0, None)"
    by blast
  from export_needs_completed_chunk [of ?s1 Some None] 2
  obtain s' jszip where b: "handleDownloadAllAsZip Some None ?s1 = (s', Some jszip)"
      "messageType s' = MsgSuccess"
      "message s' = Downloaded (length (filter (\<lambda>chunk. a_status chunk = Completed) (audioChunks ?s1)))"
    by blast
  from b(1) 4 have "jszip = [(''002_f.mp3'', ''blob:1'')]" by simp
  with b 3 have "\<exists>s'. handleDownloadAllAsZip Some None ?s1 = (s', Some [(''002_f.mp3'', ''blob:1'')])
          \<and> messageType s' = MsgSuccess \<and> message s' = Downloaded 1"
    by auto
  with 1 2 a show ?thesis by blast
qed

section \<open>Properties of the scheduler\<close>

lemma POST_batch_results:
  assumes "POST gen body = JsonBatch resp"
  shows "\<exists>cs. b_chunks body = Some cs
           \<and> resp_results resp = map (\<lambda>c. settledResult c (generateChunk gen body c)) cs"
proof (cases "b_chunks body")
  case None
  with assms show ?thesis by (simp add: POST_def)
next
  case (Some cs)
  show ?thesis
  proof (cases cs)
    case Nil
    with Some assms show ?thesis by (simp add: POST_def)
  next
    case (Cons c cs')
    with Some assms obtain folded
      where f: "collectAll ([], []) (zip cs (map (generateChunk gen body) cs)) = Inr folded"
        and r: "resp_results resp = fst folded"
      by (auto simp: POST_def Let_def split: if_splits sum.splits
          simp del: collectAll.simps zip_Cons_Cons list.map)
    from collectAll_Inr [OF f] r show ?thesis using Some by simp
  qed
qed

lemma chunkJson_index:
  "chunkJson c \<noteq> JNull" "getProp (chunkJson c) ''index'' = Some (JNum (int (index c)))"
  by (simp_all add: chunkJson_def)

lemma r_chunkIndex_settled:
  "c \<noteq> JNull \<Longrightarrow>
     r_chunkIndex (settledResult c (generateChunk gen body c)) = getProp c ''index''"
  using settledResult_generateChunk by blast

lemma processBatch_results:
  assumes "processBatch v fetch batchChunks batchIndex = Inr results"
  shows "map r_chunkIndex results = map (\<lambda>c. Some (JNum (int (index c)))) batchChunks"
proof -
  let ?body = "\<lparr>b_chunks = Some (map chunkJson batchChunks),
             b_provider = Some (v_selectedProvider v),
             b_voice = (if v_selectedProvider v = ''minimax''
                        then Some (v_selectedVoice v) else None),
             b_model = (if v_selectedProvider v = ''minimax''
                        then Some (v_selectedModel v) else None),
             b_elevenLabsVoiceId = (if v_selectedProvider v = ''elevenlabs''
                                    then Some (v_selectedVoice v) else None),
             b_userId = Some ''demo_user''\<rparr>"
  from assms obtain gen resp where g: "fetch = Served gen" "POST gen ?body = JsonBatch resp"
      "results = resp_results resp"
    by (auto simp: processBatch_def Let_def split: BatchFetch.splits HttpResponse.splits)
  from POST_batch_results [OF g(2)] have "resp_results resp
      = map (\<lambda>c. settledResult c (generateChunk gen ?body c)) (map chunkJson batchChunks)"
    by simp
  moreover have "r_chunkIndex (settledResult (chunkJson c) (generateChunk gen ?body (chunkJson c)))
      = Some (JNum (int (index c)))" for c
    by (simp only: r_chunkIndex_settled [OF chunkJson_index(1)] chunkJson_index(2))
  ultimately show ?thesis using g(3) by (simp add: comp_def)
qed

lemma clicks_keep:
  "batchProgress ((handlePauseResume ^^ n) s) = batchProgress s"
  "audioChunks ((handlePauseResume ^^ n) s) = audioChunks s"
  by (induction n) (simp_all add: handlePauseResume_def showMessage_def)

lemma batchBody_audioChunks:
  "audioChunks (batchBody v e nBatches batchIndex s) =
     (case processBatch v (net e) (batchChunksOf v batchIndex) batchIndex of
        Inr results \<Rightarrow>
          applyResults results (markGenerating (batchChunksOf v batchIndex) (audioChunks s))
      | Inl msg \<Rightarrow>
          markFailed msg (batchChunksOf v batchIndex)
            (markGenerating (batchChunksOf v batchIndex) (audioChunks s)))"
  by (simp add: batchBody_def Let_def clicks_keep showMessage_def split: sum.splits)

lemma batchBody_batchProgress:
  "batchProgress (batchBody v e nBatches batchIndex s) =
     (case processBatch v (net e) (batchChunksOf v batchIndex) batchIndex of
        Inr results \<Rightarrow>
          map_option (\<lambda>prev. settleProgress batchIndex results (prev\<lparr>currentBatch := batchIndex + 1\<rparr>))
            (batchProgress s)
      | Inl msg \<Rightarrow>
          map_option (\<lambda>prev. failProgress batchIndex (batchChunksOf v batchIndex)
                               (prev\<lparr>currentBatch := batchIndex + 1\<rparr>))
            (batchProgress s))"
  by (simp add: batchBody_def Let_def clicks_keep showMessage_def option.map_comp comp_def
      split: sum.splits)

lemma batchBody_progress:
  assumes "batchProgress s = Some bp"
  shows "\<exists>bp'. batchProgress (batchBody v e nBatches batchIndex s) = Some bp'
           \<and> totalChunks bp' = totalChunks bp \<and> totalBatches bp' = totalBatches bp
           \<and> completedBatches bp' = batchIndex + 1
           \<and> completedChunks bp \<le> completedChunks bp'
           \<and> failedChunks bp \<le> failedChunks bp'
           \<and> completedChunks bp' + failedChunks bp'
               = completedChunks bp + failedChunks bp + length (batchChunksOf v batchIndex)"
proof (cases "processBatch v (net e) (batchChunksOf v batchIndex) batchIndex")
  case (Inl msg)
  then show ?thesis using assms
    by (simp add: batchBody_batchProgress failProgress_def)
next
  case (Inr results)
  from processBatch_results [OF Inr] have "length results = length (batchChunksOf v batchIndex)"
    by (metis length_map)
  then have "length (filter r_success results) + length (filter (\<lambda>r. \<not> r_success r) results)
      = length (batchChunksOf v batchIndex)"
    using length_filter_partition [of r_success results] by simp
  then show ?thesis using assms Inr
    by (simp add: batchBody_batchProgress settleProgress_def)
qed

lemma length_batchChunksOf:
  "length (batchChunksOf v k)
     = min (k * batchSize + batchSize) (length (v_textChunks v)) - k * batchSize"
  by (auto simp: batchChunksOf_def Let_def slice_def)

lemma batchLoop_progress:
  assumes "batchProgress s = Some bp" "totalChunks bp = length (v_textChunks v)"
    and "completedChunks bp + failedChunks bp \<le> min (k * batchSize) (length (v_textChunks v))"
  shows "(\<forall>t\<in>set (batchLoop v env nBatches k s).
            progressBounded (length (v_textChunks v)) t \<and> progressLe s t)
         \<and> sorted_wrt progressLe (batchLoop v env nBatches k s)"
  using assms
proof (induction v env nBatches k s arbitrary: bp rule: batchLoop.induct)
  case (1 v env nBatches k s)
  let ?n = "length (v_textChunks v)"
  show ?case
  proof (cases "k < nBatches")
    case False
    then show ?thesis by (subst (1 2) batchLoop.simps) simp
  next
    case inside: True
    show ?thesis
    proof (cases "v_isPaused v")
      case True
      have "progressBounded ?n (showMessage PausedByUser MsgInfo s)"
        using "1.prems" by (simp add: progressBounded_def showMessage_def)
      moreover have "progressLe s (showMessage PausedByUser MsgInfo s)"
        using "1.prems" by (simp add: progressLe_def showMessage_def)
      ultimately show ?thesis using inside True by (subst (1 2) batchLoop.simps) simp
    next
      case False
      let ?s' = "batchBody v (env k) nBatches k s"
      from batchBody_progress [OF "1.prems"(1), of v "env k" nBatches k]
      obtain bp' where bp': "batchProgress ?s' = Some bp'" "totalChunks bp' = totalChunks bp"
          "completedChunks bp \<le> completedChunks bp'" "failedChunks bp \<le> failedChunks bp'"
          "completedChunks bp' + failedChunks bp'
             = completedChunks bp + failedChunks bp + length (batchChunksOf v k)"
        by blast
      have sum: "completedChunks bp' + failedChunks bp' \<le> min ((k + 1) * batchSize) ?n"
        using bp'(5) "1.prems"(3) by (simp add: length_batchChunksOf min_def split: if_splits)
      have tot: "totalChunks bp' = ?n" using bp'(2) "1.prems"(2) by simp
      have le: "progressLe s ?s'"
        using bp' "1.prems"(1) by (simp add: progressLe_def)
      have bd: "progressBounded ?n ?s'"
        using bp'(1) tot sum by (simp add: progressBounded_def)
      from "1.IH" [OF inside False bp'(1) tot sum]
      have ih: "\<forall>t\<in>set (batchLoop v env nBatches (k + 1) ?s'). progressBounded ?n t \<and> progressLe ?s' t"
          "sorted_wrt progressLe (batchLoop v env nBatches (k + 1) ?s')"
        by simp_all
      have trans: "progressLe s t" if "progressLe ?s' t" for t
        using le that by (auto simp: progressLe_def split: option.splits)
      have unf: "batchLoop v env nBatches k s = ?s' # batchLoop v env nBatches (k + 1) ?s'"
        using inside False by (subst batchLoop.simps) simp
      show ?thesis unfolding unf using ih le bd trans by auto
    qed
  qed
qed

lemma sorted_wrt_last:
  "sorted_wrt R xs \<Longrightarrow> \<forall>x\<in>set xs. R x x \<Longrightarrow> x \<in> set xs \<Longrightarrow> R x (last xs)"
  by (induction xs) (auto split: if_splits)

lemma progressBounded_refl: "progressBounded n s \<Longrightarrow> progressLe s s"
  by (auto simp: progressBounded_def progressLe_def split: option.splits)

lemma progress_cong:
  "batchProgress a = batchProgress b \<Longrightarrow> progressLe t a = progressLe t b"
  "batchProgress a = batchProgress b \<Longrightarrow> progressBounded n a = progressBounded n b"
  by (simp_all add: progressLe_def progressBounded_def)

text \<open>
  C6. In a generation run (the three guards of \<open>handleGenerateAudio\<close> pass) every state
  the run sets has a progress record with \<open>totalChunks\<close> the number of text chunks and
  \<open>completedChunks + failedChunks \<le> totalChunks\<close>, and from each state to every later
  one neither counter decreases, after a settled batch as after a batch error.
\<close>

theorem progress_monotone_and_bounded:
  assumes "trim (v_text v) \<noteq> []" "v_selectedVoice v \<noteq> []" "v_textChunks v \<noteq> []"
  shows "list_all (progressBounded (length (v_textChunks v))) (handleGenerateAudio v env s)
       \<and> sorted_wrt progressLe (handleGenerateAudio v env s)"
proof -
  let ?n = "length (v_textChunks v)"
  let ?nB = "(?n + batchSize - 1) div batchSize"
  let ?s0 = "startState v s"
  let ?tr = "batchLoop v env ?nB 0 ?s0"
  let ?s1 = "last (?s0 # ?tr)"
  let ?s2 = "case v_batchProgress v of
               Some finalProgress \<Rightarrow>
                 showMessage (GenerationCompleted (completedChunks finalProgress)
                     (totalChunks finalProgress))
                   (if failedChunks finalProgress = 0 then MsgSuccess else MsgInfo) ?s1
             | None \<Rightarrow> ?s1"
  let ?fin = "?s2\<lparr>isGenerating := False, isPaused := False\<rparr>"
  have run: "handleGenerateAudio v env s = ?s0 # ?tr @ [?fin]"
    using assms unfolding handleGenerateAudio_def Let_def
    by (simp del: last.simps One_nat_def)
  obtain bp where bp: "batchProgress ?s0 = Some bp" "totalChunks bp = ?n"
      "completedChunks bp + failedChunks bp \<le> min (0 * batchSize) ?n"
    by (simp add: startState_def Let_def showMessage_def)
  from batchLoop_progress [OF bp, of env ?nB]
  have tr: "\<forall>t\<in>set ?tr. progressBounded ?n t \<and> progressLe ?s0 t" "sorted_wrt progressLe ?tr"
    by simp_all
  have b0: "progressBounded ?n ?s0" using bp by (simp add: progressBounded_def)
  have bounded: "\<forall>t\<in>set (?s0 # ?tr). progressBounded ?n t" using tr(1) b0 by simp
  have sorted: "sorted_wrt progressLe (?s0 # ?tr)" using tr by simp
  have refl: "\<forall>t\<in>set (?s0 # ?tr). progressLe t t"
    using bounded progressBounded_refl by blast
  have fin: "batchProgress ?fin = batchProgress ?s1"
    by (simp add: showMessage_def split: option.splits)
  have "?s1 \<in> set (?s0 # ?tr)" by (rule last_in_set) simp
  with bounded have "progressBounded ?n ?s1" by blast
  then have bfin: "progressBounded ?n ?fin" using progress_cong(2) [OF fin] by simp
  have lefin: "\<forall>t\<in>set (?s0 # ?tr). progressLe t ?fin"
  proof
    fix t assume t: "t \<in> set (?s0 # ?tr)"
    from sorted_wrt_last [OF sorted refl t] have "progressLe t ?s1" .
    then show "progressLe t ?fin" using progress_cong(1) [OF fin] by simp
  qed
  have "list_all (progressBounded ?n) ((?s0 # ?tr) @ [?fin])"
    using bounded bfin by (simp add: list_all_iff)
  moreover have "sorted_wrt progressLe ((?s0 # ?tr) @ [?fin])"
    using sorted lefin by (simp add: sorted_wrt_append)
  ultimately show ?thesis unfolding run by simp
qed

theorem progress_monotone_and_bounded_witness:
  "trim (v_text (sampleRender 21 False)) \<noteq> [] \<and> v_selectedVoice (sampleRender 21 False) \<noteq> []
   \<and> v_textChunks (sampleRender 21 False) \<noteq> []
   \<and> list_all (progressBounded 21) (handleGenerateAudio (sampleRender 21 False) flaky idleState)
   \<and> sorted_wrt progressLe (handleGenerateAudio (sampleRender 21 False) flaky idleState)
   \<and> map (\<lambda>t. map_option (\<lambda>p. (completedChunks p, failedChunks p)) (batchProgress t))
        (handleGenerateAudio (sampleRender 21 False) flaky idleState)
      = [Some (0, 0), Some (9, 1), Some (9, 11), Some (10, 11), Some (10, 11)]"
proof -
  have 1: "trim (v_text (sampleRender 21 False)) \<noteq> []" by code_simp
  have 2: "v_selectedVoice (sampleRender 21 False) \<noteq> []" by code_simp
  have 3: "v_textChunks (sampleRender 21 False) \<noteq> []" by code_simp
  have 4: "length (v_textChunks (sampleRender 21 False)) = 21" by code_simp
  have 5: "map (\<lambda>t. map_option (\<lambda>p. (completedChunks p, failedChunks p)) (batchProgress t))
        (handleGenerateAudio (sampleRender 21 False) flaky idleState)
      = [Some (0, 0), Some (9, 1), Some (9, 11), Some (10, 11), Some (10, 11)]"
    by code_simp
  from progress_monotone_and_bounded [OF 1 2 3, of flaky idleState] 1 2 3 5 show ?thesis
    unfolding 4 by blast
qed

lemma chunkIndex_kept:
  "map a_chunkIndex (markGenerating bcs acs) = map a_chunkIndex acs"
  "map a_chunkIndex (markFailed msg bcs acs) = map a_chunkIndex acs"
  "map a_chunkIndex (applyResults results acs) = map a_chunkIndex acs"
  by (simp_all add: markGenerating_def markFailed_def applyResults_def comp_def
      split: option.splits)

lemma batchBody_chunkIndex:
  "map a_chunkIndex (audioChunks (batchBody v e nBatches k s)) = map a_chunkIndex (audioChunks s)"
  by (simp add: batchBody_audioChunks chunkIndex_kept split: sum.splits)

lemma markFailed_status:
  assumes "a \<in> set (markFailed msg bcs acs)"
    and "list_ex (\<lambda>bc. index bc = a_chunkIndex a) bcs"
  shows "a_status a = Failed \<and> a_error a = Some msg"
proof -
  from assms(1) obtain a0 where a0: "a0 \<in> set acs"
      "a = (if list_ex (\<lambda>bc. index bc = a_chunkIndex a0) bcs
            then a0\<lparr>a_status := Failed, a_error := Some msg\<rparr> else a0)"
    by (auto simp: markFailed_def)
  then have "a_chunkIndex a = a_chunkIndex a0" by simp
  with a0(2) assms(2) show ?thesis by simp
qed

lemma applyResults_status:
  assumes "a \<in> set (applyResults results acs)"
    and "list_ex (\<lambda>bc. index bc = a_chunkIndex a) bcs"
    and "map r_chunkIndex results = map (\<lambda>c. Some (JNum (int (index c)))) bcs"
  shows "a_status a = Completed \<or> a_status a = Failed"
proof -
  from assms(1) obtain a0 where a0: "a0 \<in> set acs"
      "a = (case find (\<lambda>r. r_chunkIndex r = Some (JNum (int (a_chunkIndex a0)))) results of
              Some result \<Rightarrow>
                a0\<lparr>a_status := (if r_success result then Completed else Failed),
                    a_audioUrl := orElse (r_audioUrl result) [],
                    a_duration := (case r_duration result of Some d \<Rightarrow> d | None \<Rightarrow> 0),
                    a_filename := orElse (r_filename result) [],
                    a_error := r_error result\<rparr>
            | None \<Rightarrow> a0)"
    by (auto simp: applyResults_def)
  then have same: "a_chunkIndex a = a_chunkIndex a0" by (simp split: option.splits)
  from assms(2) obtain bc where "bc \<in> set bcs" "index bc = a_chunkIndex a"
    by (auto simp: list_ex_iff)
  then have "Some (JNum (int (a_chunkIndex a))) \<in> set (map (\<lambda>c. Some (JNum (int (index c)))) bcs)"
    by force
  then have "Some (JNum (int (a_chunkIndex a0))) \<in> set (map r_chunkIndex results)"
    using assms(3) same by simp
  then have "find (\<lambda>r. r_chunkIndex r = Some (JNum (int (a_chunkIndex a0)))) results \<noteq> None"
    by (auto simp: find_None_iff)
  then obtain r
    where "find (\<lambda>r. r_chunkIndex r = Some (JNum (int (a_chunkIndex a0)))) results = Some r"
    by blast
  with a0(2) show ?thesis by simp
qed

lemma batchBody_terminal:
  assumes "a \<in> set (audioChunks (batchBody v e nBatches k s))"
    and "list_ex (\<lambda>bc. index bc = a_chunkIndex a) (batchChunksOf v k)"
  shows "a_status a = Completed \<or> a_status a = Failed"
proof (cases "processBatch v (net e) (batchChunksOf v k) k")
  case (Inl msg)
  with assms(1) have "a \<in> set (markFailed msg (batchChunksOf v k)
      (markGenerating (batchChunksOf v k) (audioChunks s)))"
    by (simp add: batchBody_audioChunks)
  from markFailed_status [OF this assms(2)] show ?thesis by simp
next
  case (Inr results)
  with assms(1) have "a \<in> set (applyResults results
      (markGenerating (batchChunksOf v k) (audioChunks s)))"
    by (simp add: batchBody_audioChunks)
  from applyResults_status [OF this assms(2) processBatch_results [OF Inr]] show ?thesis .
qed

lemma set_batchChunksOf: "set (batchChunksOf v k) \<subseteq> set (v_textChunks v)"
  unfolding batchChunksOf_def Let_def slice_def
  by (meson set_take_subset set_drop_subset subset_trans)

text \<open>
  C7. When sending batch \<open>k\<close> throws (the fetch rejects, or the route answers with an
  error), every job of a chunk of the batch is set to \<open>failed\<close> with the thrown
  message, \<open>failedChunks\<close> grows by the size of the batch, \<open>completedChunks\<close> is
  unchanged, and the loop goes on with batch \<open>k + 1\<close>. Whatever the outcome of a batch,
  the jobs of its chunks are \<open>completed\<close> or \<open>failed\<close> once the batch has been
  attempted.
\<close>

theorem batch_error_fails_whole_batch:
  assumes thrown: "processBatch v (net (env k)) (batchChunksOf v k) k = Inl msg"
    and inside: "k < nBatches" and running: "\<not> v_isPaused v"
    and progress: "batchProgress s = Some bp"
    and jobs: "map a_chunkIndex (audioChunks s) = map index (v_textChunks v)"
  shows "(\<forall>c\<in>set (batchChunksOf v k).
            \<exists>a\<in>set (audioChunks (batchBody v (env k) nBatches k s)). a_chunkIndex a = index c)
       \<and> (\<forall>a\<in>set (audioChunks (batchBody v (env k) nBatches k s)).
            list_ex (\<lambda>bc. index bc = a_chunkIndex a) (batchChunksOf v k) \<longrightarrow>
              a_status a = Failed \<and> a_error a = Some msg)
       \<and> (\<exists>bp'. batchProgress (batchBody v (env k) nBatches k s) = Some bp'
              \<and> failedChunks bp' = failedChunks bp + length (batchChunksOf v k)
              \<and> completedChunks bp' = completedChunks bp
              \<and> completedBatches bp' = k + 1)
       \<and> batchLoop v env nBatches k s =
           batchBody v (env k) nBatches k s
             # batchLoop v env nBatches (k + 1) (batchBody v (env k) nBatches k s)
       \<and> (\<forall>e. \<forall>a\<in>set (audioChunks (batchBody v e nBatches k s)).
            list_ex (\<lambda>bc. index bc = a_chunkIndex a) (batchChunksOf v k) \<longrightarrow>
              a_status a = Completed \<or> a_status a = Failed)"
proof (intro conjI)
  let ?s' = "batchBody v (env k) nBatches k s"
  show "\<forall>c\<in>set (batchChunksOf v k). \<exists>a\<in>set (audioChunks ?s'). a_chunkIndex a = index c"
  proof
    fix c assume "c \<in> set (batchChunksOf v k)"
    then have "c \<in> set (v_textChunks v)" using set_batchChunksOf by blast
    then have "index c \<in> set (map index (v_textChunks v))" by simp
    then have "index c \<in> set (map a_chunkIndex (audioChunks ?s'))"
      using jobs by (simp only: batchBody_chunkIndex)
    then show "\<exists>a\<in>set (audioChunks ?s'). a_chunkIndex a = index c" by auto
  qed
  have ac: "audioChunks ?s' = markFailed msg (batchChunksOf v k)
      (markGenerating (batchChunksOf v k) (audioChunks s))"
    using thrown by (simp add: batchBody_audioChunks)
  show "\<forall>a\<in>set (audioChunks ?s').
            list_ex (\<lambda>bc. index bc = a_chunkIndex a) (batchChunksOf v k) \<longrightarrow>
              a_status a = Failed \<and> a_error a = Some msg"
    unfolding ac using markFailed_status by blast
  show "\<exists>bp'. batchProgress ?s' = Some bp'
              \<and> failedChunks bp' = failedChunks bp + length (batchChunksOf v k)
              \<and> completedChunks bp' = completedChunks bp
              \<and> completedBatches bp' = k + 1"
    using thrown progress by (simp add: batchBody_batchProgress failProgress_def)
  show "batchLoop v env nBatches k s = ?s' # batchLoop v env nBatches (k + 1) ?s'"
    using inside running by (subst batchLoop.simps) simp
  show "\<forall>e. \<forall>a\<in>set (audioChunks (batchBody v e nBatches k s)).
            list_ex (\<lambda>bc. index bc = a_chunkIndex a) (batchChunksOf v k) \<longrightarrow>
              a_status a = Completed \<or> a_status a = Failed"
    using batchBody_terminal by blast
qed

theorem batch_error_fails_whole_batch_witness:
  "processBatch (sampleRender 21 False) (net (flaky 1)) (batchChunksOf (sampleRender 21 False) 1) 1
      = Inl ''Failed to fetch''
   \<and> batchProgress (hd (batchLoop (sampleRender 21 False) flaky 3 0
                          (startState (sampleRender 21 False) idleState)))
      = Some \<lparr>totalBatches = 3, completedBatches = 1, currentBatch = 1, totalChunks = 21,
               completedChunks = 9, failedChunks = 1\<rparr>
   \<and> (\<exists>bp'. batchProgress (batchBody (sampleRender 21 False) (flaky 1) 3 1
                  (hd (batchLoop (sampleRender 21 False) flaky 3 0
                          (startState (sampleRender 21 False) idleState)))) = Some bp'
          \<and> failedChunks bp' = 1 + 10 \<and> completedChunks bp' = 9 \<and> completedBatches bp' = 1 + 1)
   \<and> map (\<lambda>a. (a_status a, a_error a))
        (filter (\<lambda>a. list_ex (\<lambda>bc. index bc = a_chunkIndex a) (batchChunksOf (sampleRender 21 False) 1))
          (audioChunks (batchBody (sampleRender 21 False) (flaky 1) 3 1
                  (hd (batchLoop (sampleRender 21 False) flaky 3 0
                          (startState (sampleRender 21 False) idleState))))))
      = replicate 10 (Failed, Some ''Failed to fetch'')"
proof -
  let ?v = "sampleRender 21 False"
  let ?s = "hd (batchLoop ?v flaky 3 0 (startState ?v idleState))"
  let ?bp = "\<lparr>totalBatches = 3, completedBatches = 1, currentBatch = 1, totalChunks = 21,
               completedChunks = 9, failedChunks = 1\<rparr>"
  have 1: "processBatch ?v (net (flaky 1)) (batchChunksOf ?v 1) 1 = Inl ''Failed to fetch''"
    by code_simp
  have 2: "(1::nat) < 3" by simp
  have 3: "\<not> v_isPaused ?v" by code_simp
  have 4: "batchProgress ?s = Some ?bp" by code_simp
  have 5: "map a_chunkIndex (audioChunks ?s) = map index (v_textChunks ?v)" by code_simp
  have 6: "length (batchChunksOf ?v 1) = 10" by code_simp
  have 7: "map (\<lambda>a. (a_status a, a_error a))
        (filter (\<lambda>a. list_ex (\<lambda>bc. index bc = a_chunkIndex a) (batchChunksOf ?v 1))
          (audioChunks (batchBody ?v (flaky 1) 3 1 ?s)))
      = replicate 10 (Failed, Some ''Failed to fetch'')"
    by code_simp
  from batch_error_fails_whole_batch [where v = ?v and env = flaky and k = 1 and nBatches = 3
      and s = ?s and bp = ?bp and msg = "''Failed to fetch''", OF 1 2 3 4 5]
  have "\<exists>bp'. batchProgress (batchBody ?v (flaky 1) 3 1 ?s) = Some bp'
              \<and> failedChunks bp' = failedChunks ?bp + length (batchChunksOf ?v 1)
              \<and> completedChunks bp' = completedChunks ?bp
              \<and> completedBatches bp' = 1 + 1"
    by blast
  then have "\<exists>bp'. batchProgress (batchBody ?v (flaky 1) 3 1 ?s) = Some bp'
          \<and> failedChunks bp' = 1 + 10 \<and> completedChunks bp' = 9 \<and> completedBatches bp' = 1 + 1"
    unfolding 6 by simp
  with 1 4 7 show ?thesis by blast
qed

text \<open>
  C8 does not hold of the code. In a run of three batches where the pause button is
  clicked while the first batch is awaited, the state's \<open>isPaused\<close> becomes true, but the
  loop reads the \<open>isPaused\<close> of the render that started it: the second and third batch
  are sent and all 21 chunks end \<open>completed\<close>. Where the check does fire
  (\<open>brokenRun\<close>), the loop breaks and the \<open>finally\<close> block ends the run with
  \<open>completedBatches = 0\<close> of 3; the pause button's handler only toggles the flag, so no
  later click moves \<open>completedBatches\<close> or any job, and starting again sets every job
  back to \<open>pending\<close>, the completed ones too.
\<close>

theorem pause_neither_stops_nor_resumes:
  "map isPaused pausedRun = [False, True, True, True, False]
   \<and> map (\<lambda>t. map_option completedBatches (batchProgress t)) pausedRun
       = [Some 0, Some 1, Some 2, Some 3, Some 3]
   \<and> map a_status (audioChunks (pausedRun ! 1)) = replicate 10 Completed @ replicate 11 Pending
   \<and> map a_status (audioChunks (last pausedRun)) = replicate 21 Completed
   \<and> map message brokenRun = [Starting 3 21, PausedByUser, PausedByUser]
   \<and> map isGenerating brokenRun = [True, True, False]
   \<and> map_option (\<lambda>p. (completedBatches p, totalBatches p)) (batchProgress (last brokenRun))
       = Some (0, 3)
   \<and> map_option (\<lambda>p. (completedBatches p, totalBatches p))
        (batchProgress (handlePauseResume (handlePauseResume (last brokenRun)))) = Some (0, 3)
   \<and> map a_status (audioChunks (handlePauseResume (handlePauseResume (last brokenRun))))
       = replicate 21 Pending
   \<and> map a_status (audioChunks (hd (handleGenerateAudio (sampleRender 21 False) pauseAfterFirst
                                        (pausedRun ! 1))))
       = replicate 21 Pending"
  by code_simp

end
